theory Spec2Isabelle
  imports Complex_Main
begin

section \<open>Strings and dictionaries of the Python source\<close>

text \<open>
  The development embeds \<^verbatim>\<open>prepare_corpora_after_alignment.py\<close>. A Python
  \<^verbatim>\<open>str\<close> is a \<^typ>\<open>string\<close>; one \<^typ>\<open>char\<close> stands for one code point below 256,
  so \<^const>\<open>length\<close> is Python's \<^verbatim>\<open>len\<close> on such text. Python floats are
  idealised as \<^typ>\<open>real\<close> (\<^verbatim>\<open>math.log\<close> is \<^const>\<open>ln\<close>, rounding and overflow
  are not modelled). A file is the list of its lines.
\<close>

datatype error = ValueError | AssertionError | ZeroDivisionError

text \<open>The code points below 256 for which \<^verbatim>\<open>str.isspace\<close> holds.\<close>

definition isspace :: "char \<Rightarrow> bool" where
  "isspace c = (let n = (of_char c :: nat) in
     (9 \<le> n \<and> n \<le> 13) \<or> (28 \<le> n \<and> n \<le> 32) \<or> n = 133 \<or> n = 160)"

text \<open>\<^verbatim>\<open>s.strip()\<close>\<close>

definition strip :: "string \<Rightarrow> string" where
  "strip s = rev (dropWhile isspace (rev (dropWhile isspace s)))"

text \<open>\<^verbatim>\<open>s.split(sep)\<close> for a separator of one character: never an empty list.\<close>

fun split_on :: "char \<Rightarrow> string \<Rightarrow> string list" where
  "split_on sep [] = [[]]"
| "split_on sep (c # cs) =
     (let r = split_on sep cs
      in if c = sep then [] # r else (c # hd r) # tl r)"

text \<open>\<^verbatim>\<open>s.split()\<close>: runs of whitespace separate, empty words are dropped.
  The first argument is the word read so far.\<close>

fun split_ws :: "string \<Rightarrow> string \<Rightarrow> string list" where
  "split_ws w [] = (if w = [] then [] else [w])"
| "split_ws w (c # cs) =
     (if isspace c then (if w = [] then split_ws [] cs else w # split_ws [] cs)
      else split_ws (w @ [c]) cs)"

text \<open>\<^verbatim>\<open>sep.join(ws)\<close>\<close>

fun join :: "string \<Rightarrow> string list \<Rightarrow> string" where
  "join sep [] = []"
| "join sep [w] = w"
| "join sep (w # ws) = w @ sep @ join sep ws"

text \<open>\<^verbatim>\<open>s.replace(old, new)\<close>: occurrences are replaced from the left and do not
  overlap; an empty \<^verbatim>\<open>old\<close> matches before every character and at the end.\<close>

function replace :: "string \<Rightarrow> string \<Rightarrow> string \<Rightarrow> string" where
  "replace old new s =
     (if old = [] then new @ concat (map (\<lambda>c. c # new) s)
      else if s = [] then []
      else if take (length old) s = old
        then new @ replace old new (drop (length old) s)
      else hd s # replace old new (tl s))"
  by pat_completeness auto
termination
  by (relation "measure (\<lambda>(old, new, s). length s)") auto

declare replace.simps [simp del]

text \<open>\<^verbatim>\<open>xs[begin:end]\<close> for \<open>begin \<le> end\<close>.\<close>

definition slice :: "nat \<Rightarrow> nat \<Rightarrow> 'a list \<Rightarrow> 'a list" where
  "slice begin end xs = take (end - begin) (drop begin xs)"

text \<open>\<^verbatim>\<open>s.count(" ")\<close>\<close>

definition count_sp :: "string \<Rightarrow> nat" where
  "count_sp s = count_list s CHR '' ''"

text \<open>\<^verbatim>\<open>str(n)\<close> for a natural number.\<close>

definition digit_char :: "nat \<Rightarrow> char" where
  "digit_char d = ''0123456789'' ! d"

function str_nat :: "nat \<Rightarrow> string" where
  "str_nat n = (if n < 10 then [digit_char n] else str_nat (n div 10) @ [digit_char (n mod 10)])"
  by pat_completeness auto
termination
  by (relation "measure id") auto

declare str_nat.simps [simp del]

text \<open>
  A \<^verbatim>\<open>dict\<close> keeps its keys in insertion order, and the source iterates over
  dictionaries, so a dictionary is an association list with distinct keys.
  \<^verbatim>\<open>d[k] = v\<close> keeps the place of a key that is present and appends a new one;
  \<^verbatim>\<open>d1 | d2\<close> is \<^verbatim>\<open>d1\<close> updated with the items of \<^verbatim>\<open>d2\<close> in order.
\<close>

type_synonym ('k, 'v) dict = "('k \<times> 'v) list"

fun dict_set :: "'k \<Rightarrow> 'v \<Rightarrow> ('k, 'v) dict \<Rightarrow> ('k, 'v) dict" where
  "dict_set k v [] = [(k, v)]"
| "dict_set k v ((k', v') # d) =
     (if k' = k then (k', v) # d else (k', v') # dict_set k v d)"

definition dict_union :: "('k, 'v) dict \<Rightarrow> ('k, 'v) dict \<Rightarrow> ('k, 'v) dict" where
  "dict_union d1 d2 = foldl (\<lambda>d (k, v). dict_set k v d) d1 d2"

text \<open>\<^verbatim>\<open>del d[k]\<close> for a key that is present.\<close>

definition dict_del :: "'k \<Rightarrow> ('k, 'v) dict \<Rightarrow> ('k, 'v) dict" where
  "dict_del k d = filter (\<lambda>(k', v). k' \<noteq> k) d"

text \<open>\<^verbatim>\<open>d[k]\<close> of a \<^verbatim>\<open>defaultdict\<close> whose default is \<^verbatim>\<open>dflt\<close>.\<close>

definition dict_get :: "'v \<Rightarrow> ('k, 'v) dict \<Rightarrow> 'k \<Rightarrow> 'v" where
  "dict_get dflt d k = (case map_of d k of None \<Rightarrow> dflt | Some v \<Rightarrow> v)"

text \<open>A loop whose body may raise: the first error ends it.\<close>

fun for_each :: "('a \<Rightarrow> 's \<Rightarrow> error + 's) \<Rightarrow> 'a list \<Rightarrow> 's \<Rightarrow> error + 's" where
  "for_each body [] s = Inr s"
| "for_each body (x # xs) s =
     (case body x s of Inl e \<Rightarrow> Inl e | Inr s' \<Rightarrow> for_each body xs s')"

section \<open>The alignment file and the replacement table\<close>

definition tab :: char where
  "tab = CHR 0x09"

definition newline :: char where
  "newline = CHR 0x0A"

text \<open>\<^verbatim>\<open>process_line\<close>: the three facets of a line \<^verbatim>\<open>good:\<close> TAB src TAB dst TAB align,
  \<^verbatim>\<open>None\<close> for any other line.\<close>

definition process_line :: "string \<Rightarrow> (string \<times> string \<times> string) option" where
  "process_line line =
     (let parts = split_on tab (strip line)
      in if length parts \<noteq> 4 then None
         else if parts ! 0 \<noteq> ''good:'' then None
         else Some (parts ! 1, parts ! 2, parts ! 3))"

text \<open>The table \<^verbatim>\<open>vocab\<close>: source n-gram to replacement to probability.\<close>

type_synonym vocab = "(string, (string, real) dict) dict"

text \<open>
  One row of the table file (the body of the loading loop of \<^verbatim>\<open>index_by_vocab\<close>).
  The built-in \<^verbatim>\<open>int\<close> is the parameter \<open>py_int\<close>: \<open>None\<close> where \<^verbatim>\<open>int(s)\<close>
  raises \<^verbatim>\<open>ValueError\<close>. Unpacking other than five fields raises \<^verbatim>\<open>ValueError\<close>,
  the \<^verbatim>\<open>assert\<close> raises \<^verbatim>\<open>AssertionError\<close>, the division \<^verbatim>\<open>ZeroDivisionError\<close>.
\<close>

definition load_vocab_line :: "(string \<Rightarrow> int option) \<Rightarrow> string \<Rightarrow> vocab \<Rightarrow> error + vocab" where
  "load_vocab_line py_int line vocab =
     (case split_on tab (strip line) of
        [src, dst, joint_freq, src_freq, dst_freq] \<Rightarrow>
          if src = [] \<or> dst = [] then Inl AssertionError
          else (case py_int joint_freq of
                  None \<Rightarrow> Inl ValueError
                | Some j \<Rightarrow>
                   (case py_int src_freq of
                      None \<Rightarrow> Inl ValueError
                    | Some s \<Rightarrow>
                        if s = 0 then Inl ZeroDivisionError
                        else Inr (dict_set src
                                    (dict_set dst (real_of_int j / real_of_int s) (dict_get [] vocab src))
                                    vocab)))
      | _ \<Rightarrow> Inl ValueError)"

definition load_vocab :: "(string \<Rightarrow> int option) \<Rightarrow> string list \<Rightarrow> error + vocab" where
  "load_vocab py_int lines = for_each (load_vocab_line py_int) lines []"

text \<open>\<^verbatim>\<open>int\<close> on a string of ASCII digits, for concrete tables.\<close>

definition digit_val :: "char \<Rightarrow> int" where
  "digit_val c = int (of_char c) - 48"

definition int_digits :: "string \<Rightarrow> int option" where
  "int_digits s =
     (if s \<noteq> [] \<and> list_all (\<lambda>c. 0 \<le> digit_val c \<and> digit_val c \<le> 9) s
      then Some (foldl (\<lambda>n c. 10 * n + digit_val c) 0 s) else None)"

section \<open>The phrase expander\<close>

text \<open>
  \<^verbatim>\<open>index_keys\<close> has one dictionary per token of the phrase, from a rendering to
  its log-probability. The loop over \<^verbatim>\<open>b\<close> grows the renderings stored at \<^verbatim>\<open>b\<close>
  with the replacement \<^verbatim>\<open>rep\<close> of the window that begins at \<^verbatim>\<open>begin\<close>.
\<close>

type_synonym index_keys = "(string, real) dict list"

definition new_ngrams :: "nat \<Rightarrow> nat \<Rightarrow> string \<Rightarrow> real \<Rightarrow> (string, real) dict \<Rightarrow> (string, real) dict" where
  "new_ngrams b begin rep lp d =
     foldl (\<lambda>acc (ngram, lp_prev).
              if length ngram + length rep \<le> 10 \<and> b + count_sp ngram = begin
              then (if lp_prev + lp > - 4 then dict_set (ngram @ rep @ '' '') (lp_prev + lp) acc else acc)
              else acc) [] d"

definition grow :: "nat \<Rightarrow> string \<Rightarrow> real \<Rightarrow> index_keys \<Rightarrow> nat \<Rightarrow> index_keys" where
  "grow begin rep lp index_keys b =
     index_keys[b := dict_union (index_keys ! b) (new_ngrams b begin rep lp (index_keys ! b))]"

text \<open>The body of \<^verbatim>\<open>for rep in vocab[inp]\<close>; \<^verbatim>\<open>math.log\<close> raises \<^verbatim>\<open>ValueError\<close>
  on a probability that is not positive. \<open>end - 5\<close> on \<^typ>\<open>nat\<close> is \<^verbatim>\<open>max(0, end - 5)\<close>.\<close>

definition expand_rep :: "nat \<Rightarrow> nat \<Rightarrow> string \<times> real \<Rightarrow> index_keys \<Rightarrow> error + index_keys" where
  "expand_rep begin end = (\<lambda>(rep0, p) index_keys.
     if p \<le> 0 then Inl ValueError
     else
       let lp = ln p;
           rep = replace ''<DELETE>'' ''='' rep0
       in if strip rep = [] then Inr index_keys
          else
            let index_keys = foldl (grow begin rep lp) index_keys [end - 5 ..< end]
            in Inr (if lp > - 4
                    then index_keys[begin := dict_set (rep @ '' '') lp (index_keys ! begin)]
                    else index_keys))"

definition expand_window :: "vocab \<Rightarrow> string list \<Rightarrow> nat \<times> nat \<Rightarrow> index_keys \<Rightarrow> error + index_keys" where
  "expand_window vocab inputs = (\<lambda>(begin, end) index_keys.
     let inp = join '' '' (slice begin end inputs)
     in case map_of vocab inp of
          None \<Rightarrow> Inr index_keys
        | Some reps \<Rightarrow> for_each (expand_rep begin end) reps index_keys)"

text \<open>The pairs \<^verbatim>\<open>(begin, end)\<close> of the two nested \<^verbatim>\<open>range\<close> loops, in order.\<close>

definition windows :: "nat \<Rightarrow> (nat \<times> nat) list" where
  "windows n = concat (map (\<lambda>begin. map (Pair begin) [begin + 1 ..< min (n + 1) (begin + 5)]) [0 ..< n])"

definition expand_phrase :: "vocab \<Rightarrow> string \<Rightarrow> error + index_keys" where
  "expand_phrase vocab phrase =
     (let inputs = split_on CHR '' '' phrase
      in for_each (expand_window vocab inputs) (windows (length inputs))
           (replicate (length inputs) []))"

section \<open>The index builder and the writer\<close>

text \<open>A posting is \<^verbatim>\<open>(phrase, b, real_length, lp)\<close>; an event is a posting with the
  collapsed n-gram it is generated for.\<close>

type_synonym posting = "string \<times> nat \<times> nat \<times> real"

type_synonym event = "string \<times> posting"

record index_state =
  index_freq :: "(string, nat) dict"
  ngram_to_phrase_and_position :: "(string, posting list) dict"
  ban_ngram :: "string set"

definition init_state :: index_state where
  "init_state = \<lparr>index_freq = [], ngram_to_phrase_and_position = [], ban_ngram = {}\<rparr>"

text \<open>\<^verbatim>\<open>" ".join(ngram.replace("+", " ").replace("=", " ").split())\<close>\<close>

definition collapse :: "string \<Rightarrow> string" where
  "collapse ngram = join '' '' (split_ws [] (replace ''='' '' '' (replace ''+'' '' '' ngram)))"

text \<open>\<^verbatim>\<open>sorted(..., key=..., reverse=True)\<close> is stable: items with equal keys keep
  their order.\<close>

definition phrase_events :: "string \<Rightarrow> index_keys \<Rightarrow> event list" where
  "phrase_events phrase index_keys =
     concat (map (\<lambda>b. map (\<lambda>(ngram, lp). (collapse ngram, phrase, b, count_sp ngram, lp))
                        (sort_key (\<lambda>(ngram, lp). - lp) (index_keys ! b)))
                 [0 ..< length index_keys])"

definition post_ngram :: "index_state \<Rightarrow> event \<Rightarrow> index_state" where
  "post_ngram st = (\<lambda>(ngram, posting).
     let st = st\<lparr>index_freq := dict_set ngram (dict_get 0 (index_freq st) ngram + 1) (index_freq st)\<rparr>
     in if ngram \<in> ban_ngram st then st
        else
          let postings = dict_get [] (ngram_to_phrase_and_position st) ngram @ [posting]
          in if length postings > 100
             then st\<lparr>ban_ngram := insert ngram (ban_ngram st),
                     ngram_to_phrase_and_position := dict_del ngram (ngram_to_phrase_and_position st)\<rparr>
             else st\<lparr>ngram_to_phrase_and_position :=
                       dict_set ngram postings (ngram_to_phrase_and_position st)\<rparr>)"

definition index_line :: "vocab \<Rightarrow> string \<Rightarrow> index_state \<Rightarrow> error + index_state" where
  "index_line vocab line st =
     (case process_line line of
        None \<Rightarrow> Inr st
      | Some (phrase, dst, align) \<Rightarrow>
          (case expand_phrase vocab phrase of
             Inl e \<Rightarrow> Inl e
           | Inr index_keys \<Rightarrow> Inr (foldl post_ngram st (phrase_events phrase index_keys))))"

definition build_index :: "vocab \<Rightarrow> string list \<Rightarrow> error + index_state" where
  "build_index vocab alignment = for_each (index_line vocab) alignment init_state"

text \<open>The final loop: \<open>index_rows\<close> lists the values of the \<^verbatim>\<open>out.write\<close> calls in
  order, \<open>format_posting\<close> is the string one call writes. \<^verbatim>\<open>str\<close> of a float is
  the parameter \<open>str_float\<close>.\<close>

definition index_rows :: "index_state \<Rightarrow> event list" where
  "index_rows st =
     concat (map (\<lambda>(ngram, freq).
                    map (Pair ngram) (dict_get [] (ngram_to_phrase_and_position st) ngram))
                 (sort_key (\<lambda>(ngram, freq). - int freq) (index_freq st)))"

definition format_posting :: "(real \<Rightarrow> string) \<Rightarrow> event \<Rightarrow> string" where
  "format_posting str_float = (\<lambda>(ngram, phrase, b, len, lp).
     ngram @ [tab] @ phrase @ [tab] @ str_nat b @ [tab] @ str_nat len @ [tab] @ str_float lp @ [newline])"

definition write_index :: "(real \<Rightarrow> string) \<Rightarrow> index_state \<Rightarrow> string list" where
  "write_index str_float st = map (format_posting str_float) (index_rows st)"


section \<open>The two vocabulary extraction modes\<close>










section \<open>Notions used to state the properties\<close>

text \<open>The postings generated for one n-gram in a sequence of events, and the n-grams of
  a sequence of events in the order of their first occurrence.\<close>

definition ngram_events :: "string \<Rightarrow> event list \<Rightarrow> posting list" where
  "ngram_events ng evs = map snd (filter (\<lambda>e. fst e = ng) evs)"

definition first_seen :: "event list \<Rightarrow> string list" where
  "first_seen evs = rev (remdups (rev (map fst evs)))"

text \<open>The events of one line of the alignment file and of a whole run, in the order
  in which \<^verbatim>\<open>index_by_vocab\<close> generates them.\<close>

definition line_events :: "vocab \<Rightarrow> string \<Rightarrow> event list" where
  "line_events vocab line =
     (case process_line line of
        None \<Rightarrow> []
      | Some (phrase, dst, align) \<Rightarrow>
          (case expand_phrase vocab phrase of
             Inl e \<Rightarrow> []
           | Inr index_keys \<Rightarrow> phrase_events phrase index_keys))"

definition run_events :: "vocab \<Rightarrow> string list \<Rightarrow> event list" where
  "run_events vocab alignment = concat (map (line_events vocab) alignment)"

text \<open>
  The renderings that the expander can store at index \<open>b\<close>: a replacement of a window
  that begins at \<open>b\<close> (rule \<open>fresh\<close>), or a stored rendering grown by the replacement of
  a later window (rule \<open>extend\<close>), with the tests of the source.
\<close>

inductive covering :: "vocab \<Rightarrow> string list \<Rightarrow> nat \<Rightarrow> string \<Rightarrow> real \<Rightarrow> bool"
  for vocab :: vocab and inputs :: "string list" where
  fresh: "(begin, end) \<in> set (windows (length inputs)) \<Longrightarrow>
      (rep0, p) \<in> set (dict_get [] vocab (join '' '' (slice begin end inputs))) \<Longrightarrow> 0 < p \<Longrightarrow>
      rep = replace ''<DELETE>'' ''='' rep0 \<Longrightarrow> strip rep \<noteq> [] \<Longrightarrow> - 4 < ln p \<Longrightarrow>
      covering vocab inputs begin (rep @ '' '') (ln p)"
| extend: "covering vocab inputs b ngram lp_prev \<Longrightarrow>
      (begin, end) \<in> set (windows (length inputs)) \<Longrightarrow>
      (rep0, p) \<in> set (dict_get [] vocab (join '' '' (slice begin end inputs))) \<Longrightarrow> 0 < p \<Longrightarrow>
      rep = replace ''<DELETE>'' ''='' rep0 \<Longrightarrow> strip rep \<noteq> [] \<Longrightarrow>
      end - 5 \<le> b \<Longrightarrow> b < end \<Longrightarrow>
      length ngram + length rep \<le> 10 \<Longrightarrow> b + count_sp ngram = begin \<Longrightarrow>
      - 4 < lp_prev + ln p \<Longrightarrow>
      covering vocab inputs b (ngram @ rep @ '' '') (lp_prev + ln p)"

text \<open>Every stored rendering is one that the two rules give.\<close>

definition coverings_ok :: "vocab \<Rightarrow> string list \<Rightarrow> index_keys \<Rightarrow> bool" where
  "coverings_ok vocab inputs index_keys \<longleftrightarrow>
     length index_keys = length inputs \<and>
     (\<forall>b < length index_keys. \<forall>(ngram, lp) \<in> set (index_keys ! b). covering vocab inputs b ngram lp)"

text \<open>The renderings that a fresh start can store at index \<open>b\<close>: the replacements of the
  windows of one to four tokens that begin at token \<open>b\<close>, each followed by a space.\<close>

definition fresh_starts :: "vocab \<Rightarrow> string list \<Rightarrow> nat \<Rightarrow> string list" where
  "fresh_starts vocab inputs b =
     concat (map (\<lambda>end. map (\<lambda>(rep0, p). replace ''<DELETE>'' ''='' rep0 @ '' '')
                          (dict_get [] vocab (join '' '' (slice b end inputs))))
               [b + 1 ..< min (length inputs + 1) (b + 5)])"

text \<open>Every dictionary of \<^verbatim>\<open>index_keys\<close> has distinct keys.\<close>

definition keys_distinct :: "index_keys \<Rightarrow> bool" where
  "keys_distinct index_keys \<longleftrightarrow> list_all (\<lambda>d. distinct (map fst d)) index_keys"

section \<open>Concrete tables and files\<close>

text \<open>The table and the phrase of the end-to-end scenario: \<open>a b \<rightarrow> x\<close> and \<open>b c \<rightarrow> y\<close>, both
  of probability 0.5, as a loaded table and as the rows of a table file, and the phrase
  \<open>a b c\<close> as a line of the alignment file. In \<open>mismatch_line\<close> the source has three
  tokens and the alignment one.\<close>

definition scenario_vocab :: vocab where
  "scenario_vocab = [(''a b'', [(''x'', 1 / 2)]), (''b c'', [(''y'', 1 / 2)])]"


definition scenario_line :: string where
  "scenario_line = ''good:'' @ [tab] @ ''a b c'' @ [tab] @ ''x y z'' @ [tab] @ ''x y z'' @ [newline]"


text \<open>The scenario with adjacent windows instead of overlapping ones: \<open>a b \<rightarrow> x\<close> and
  \<open>c \<rightarrow> y\<close>.\<close>

definition adjacent_vocab :: vocab where
  "adjacent_vocab = [(''a b'', [(''x'', 1 / 2)]), (''c'', [(''y'', 1 / 2)])]"

text \<open>A table whose only probability is below \<open>exp (-4)\<close>.\<close>

definition rare_vocab :: vocab where
  "rare_vocab = [(''a'', [(''x'', 1 / 100)])]"

text \<open>101 distinct phrases \<open>p q\<close>, \<open>p qq\<close>, \<open>p qqq\<close>, ... with the table \<open>p \<rightarrow> z\<close>: each generates
  the n-gram \<open>z\<close> once. \<open>ban_event\<close> is the event of the first of them.\<close>

definition ban_vocab :: vocab where
  "ban_vocab = [(''p'', [(''z'', 1)])]"

definition ban_phrase :: "nat \<Rightarrow> string" where
  "ban_phrase k = ''p '' @ replicate (Suc k) CHR ''q''"

definition ban_line :: "nat \<Rightarrow> string" where
  "ban_line k = ''good:'' @ [tab] @ ban_phrase k @ [tab] @ ''x'' @ [tab] @ ''x'' @ [newline]"

definition ban_alignment :: "string list" where
  "ban_alignment = map ban_line [0 ..< 101]"

definition ban_event :: event where
  "ban_event = (''z'', ''p q'', 0, 1, 0)"

text \<open>Replacements of 5, 4 and 12 characters; a one-token phrase; two windows that begin at
  the same token and have the same replacement.\<close>

definition long_vocab :: vocab where
  "long_vocab = [(''a'', [(''abcde'', 1)]), (''b'', [(''abcd'', 1)]), (''c'', [(''abcdefghijkl'', 1)])]"

definition long_line :: string where
  "long_line = ''good:'' @ [tab] @ ''a b c'' @ [tab] @ ''a b c'' @ [tab] @ ''a b c'' @ [newline]"

definition single_vocab :: vocab where
  "single_vocab = [(''a'', [(''x'', 1)])]"

definition dup_vocab :: vocab where
  "dup_vocab = [(''a'', [(''x'', 1 / 4)]), (''a b'', [(''x'', 1 / 2)])]"

text \<open>A stand-in for \<^verbatim>\<open>str\<close> on floats in closed examples: every score is written \<open>lp\<close>.\<close>

definition str_float_stub :: "real \<Rightarrow> string" where
  "str_float_stub lp = ''lp''"

section \<open>Dictionaries\<close>

lemma map_of_dict_set: "map_of (dict_set k v d) = (map_of d)(k \<mapsto> v)"
  by (induction d) (auto simp: fun_eq_iff)

lemma keys_dict_set_old: "k \<in> fst ` set d \<Longrightarrow> map fst (dict_set k v d) = map fst d"
proof (induction d)
  case Nil
  then show ?case by simp
next
  case (Cons x d)
  obtain k' v' where x: "x = (k', v')" by (cases x)
  show ?case
  proof (cases "k' = k")
    case True
    then show ?thesis by (simp add: x)
  next
    case False
    with Cons.prems have "k \<in> fst ` set d" by (auto simp: x)
    with Cons.IH False show ?thesis by (simp add: x)
  qed
qed

lemma keys_dict_set_new: "k \<notin> fst ` set d \<Longrightarrow> map fst (dict_set k v d) = map fst d @ [k]"
  by (induction d) auto

lemma keys_dict_set:
  "map fst (dict_set k v d) = (if k \<in> fst ` set d then map fst d else map fst d @ [k])"
  by (simp add: keys_dict_set_old keys_dict_set_new)

lemma set_dict_set: "set (dict_set k v d) \<subseteq> insert (k, v) (set d)"
  by (induction d) (auto split: if_splits)

lemma distinct_dict_set: "distinct (map fst d) \<Longrightarrow> distinct (map fst (dict_set k v d))"
  by (simp add: keys_dict_set)

lemma dict_get_dict_set: "dict_get dflt (dict_set k v d) k' = (if k' = k then v else dict_get dflt d k')"
  by (simp add: dict_get_def map_of_dict_set)

lemma set_dict_union: "set (dict_union d1 d2) \<subseteq> set d1 \<union> set d2"
  unfolding dict_union_def
proof (induction d2 arbitrary: d1)
  case Nil
  show ?case by simp
next
  case (Cons x d2)
  obtain k v where x: "x = (k, v)" by (cases x)
  have "set (foldl (\<lambda>d (k, v). dict_set k v d) (dict_set k v d1) d2) \<subseteq> set (dict_set k v d1) \<union> set d2"
    by (rule Cons.IH)
  with set_dict_set [of k v d1] show ?case
    by (auto simp: x)
qed

lemma distinct_dict_union: "distinct (map fst d1) \<Longrightarrow> distinct (map fst (dict_union d1 d2))"
  unfolding dict_union_def
  by (induction d2 arbitrary: d1) (auto simp: distinct_dict_set)

lemma map_of_dict_union:
  "distinct (map fst d2) \<Longrightarrow> map_of (dict_union d1 d2) = map_of d1 ++ map_of d2"
  unfolding dict_union_def
proof (induction d2 arbitrary: d1)
  case Nil
  show ?case by simp
next
  case (Cons x d2)
  obtain k v where x: "x = (k, v)" by (cases x)
  from Cons.prems have d: "distinct (map fst d2)" and k: "k \<notin> fst ` set d2"
    by (auto simp: x)
  have "map_of d2 k = None"
    using k by (simp add: map_of_eq_None_iff)
  then have "(map_of d1)(k \<mapsto> v) ++ map_of d2 = map_of d1 ++ (map_of d2)(k \<mapsto> v)"
    by (auto simp: fun_eq_iff map_add_def split: option.splits)
  moreover have "map_of (foldl (\<lambda>d (k, v). dict_set k v d) (dict_set k v d1) d2)
      = (map_of d1)(k \<mapsto> v) ++ map_of d2"
    using Cons.IH [OF d, of "dict_set k v d1"] by (simp only: map_of_dict_set)
  ultimately show ?case
    by (simp only: x foldl_Cons prod.case map_of.simps fst_conv snd_conv)
qed

lemma map_of_dict_del: "map_of (dict_del k d) = (map_of d)(k := None)"
  unfolding dict_del_def by (induction d) (auto simp: fun_eq_iff)

section \<open>The state of the index after a sequence of events\<close>

lemma ngram_events_snoc:
  "ngram_events ng (evs @ [(k, p)]) = (if k = ng then ngram_events ng evs @ [p] else ngram_events ng evs)"
  by (simp add: ngram_events_def)

lemma ngram_events_empty: "ngram_events ng evs = [] \<longleftrightarrow> ng \<notin> fst ` set evs"
  by (induction evs) (auto simp: ngram_events_def)

lemma first_seen_snoc:
  "first_seen (evs @ [(k, p)]) = (if k \<in> fst ` set evs then first_seen evs else first_seen evs @ [k])"
  by (simp add: first_seen_def)

lemma set_first_seen: "set (first_seen evs) = fst ` set evs"
  by (simp add: first_seen_def)

lemma distinct_first_seen: "distinct (first_seen evs)"
  by (simp add: first_seen_def)

lemma index_freq_post_ngram:
  "index_freq (post_ngram st (k, p)) = dict_set k (dict_get 0 (index_freq st) k + 1) (index_freq st)"
  by (simp add: post_ngram_def Let_def)

lemma run_index_freq:
  "map fst (index_freq (foldl post_ngram init_state evs)) = first_seen evs \<and>
   (\<forall>ng. dict_get 0 (index_freq (foldl post_ngram init_state evs)) ng = length (ngram_events ng evs))"
proof (induction evs rule: rev_induct)
  case Nil
  show ?case by (simp add: init_state_def first_seen_def dict_get_def ngram_events_def)
next
  case (snoc e evs)
  obtain k p where e: "e = (k, p)" by (cases e)
  let ?st = "foldl post_ngram init_state evs"
  from snoc.IH have keys: "map fst (index_freq ?st) = first_seen evs"
    and cnt: "\<And>ng. dict_get 0 (index_freq ?st) ng = length (ngram_events ng evs)"
    by simp_all
  have mem: "k \<in> fst ` set (index_freq ?st) \<longleftrightarrow> k \<in> fst ` set evs"
    using keys set_first_seen [of evs] by (metis set_map)
  show ?case
    by (simp add: e index_freq_post_ngram keys_dict_set mem keys first_seen_snoc
        dict_get_dict_set cnt ngram_events_snoc)
qed

lemma ban_ngram_post_ngram:
  "ban_ngram (post_ngram st (k, p)) =
     (if k \<notin> ban_ngram st \<and> 100 \<le> length (dict_get [] (ngram_to_phrase_and_position st) k)
      then insert k (ban_ngram st) else ban_ngram st)"
  by (simp add: post_ngram_def Let_def)

lemma postings_post_ngram:
  "ngram_to_phrase_and_position (post_ngram st (k, p)) =
     (if k \<in> ban_ngram st then ngram_to_phrase_and_position st
      else if 100 \<le> length (dict_get [] (ngram_to_phrase_and_position st) k)
        then dict_del k (ngram_to_phrase_and_position st)
      else dict_set k (dict_get [] (ngram_to_phrase_and_position st) k @ [p])
             (ngram_to_phrase_and_position st))"
  by (simp add: post_ngram_def Let_def)

lemma run_postings:
  "ban_ngram (foldl post_ngram init_state evs) = {ng. 100 < length (ngram_events ng evs)} \<and>
   (\<forall>ng. map_of (ngram_to_phrase_and_position (foldl post_ngram init_state evs)) ng =
      (if ngram_events ng evs \<noteq> [] \<and> length (ngram_events ng evs) \<le> 100
       then Some (ngram_events ng evs) else None))"
proof (induction evs rule: rev_induct)
  case Nil
  show ?case by (simp add: init_state_def ngram_events_def)
next
  case (snoc e evs)
  obtain k p where e: "e = (k, p)" by (cases e)
  let ?st = "foldl post_ngram init_state evs"
  from snoc.IH have ban: "ban_ngram ?st = {ng. 100 < length (ngram_events ng evs)}"
    and tbl: "\<And>ng. map_of (ngram_to_phrase_and_position ?st) ng =
      (if ngram_events ng evs \<noteq> [] \<and> length (ngram_events ng evs) \<le> 100
       then Some (ngram_events ng evs) else None)"
    by simp_all
  have get: "dict_get [] (ngram_to_phrase_and_position ?st) k =
      (if length (ngram_events k evs) \<le> 100 then ngram_events k evs else [])"
    by (simp add: dict_get_def tbl)
  show ?case
  proof (cases "100 < length (ngram_events k evs)")
    case True
    then show ?thesis
      by (auto simp: e ban_ngram_post_ngram postings_post_ngram ban tbl ngram_events_snoc)
  next
    case False
    show ?thesis
    proof (cases "length (ngram_events k evs) = 100")
      case True
      then show ?thesis
        using False
        by (auto simp: e ban_ngram_post_ngram postings_post_ngram ban tbl get ngram_events_snoc map_of_dict_del)
    next
      case lt: False
      with False have "length (ngram_events k evs) < 100" by simp
      then show ?thesis
        by (auto simp: e ban_ngram_post_ngram postings_post_ngram ban tbl get ngram_events_snoc map_of_dict_set)
    qed
  qed
qed

section \<open>Soundness of the expander\<close>

lemma for_each_invariant:
  assumes "for_each body xs s = Inr s'" and "P s"
    and "\<And>x t t'. x \<in> set xs \<Longrightarrow> P t \<Longrightarrow> body x t = Inr t' \<Longrightarrow> P t'"
  shows "P s'"
  using assms
proof (induction xs arbitrary: s)
  case Nil
  then show ?case by simp
next
  case (Cons x xs)
  from Cons.prems(1) obtain t where t: "body x s = Inr t" and rest: "for_each body xs t = Inr s'"
    by (auto split: sum.splits)
  have "P t" using Cons.prems(2,3) t by auto
  with rest Cons.IH Cons.prems(3) show ?case by auto
qed

lemma for_each_index_line:
  "for_each (index_line vocab) alignment st = Inr st' \<Longrightarrow>
     st' = foldl post_ngram st (run_events vocab alignment)"
proof (induction alignment arbitrary: st)
  case Nil
  then show ?case by (simp add: run_events_def)
next
  case (Cons line alignment)
  from Cons.prems obtain t where t: "index_line vocab line st = Inr t"
    and rest: "for_each (index_line vocab) alignment t = Inr st'"
    by (auto split: sum.splits)
  from t have "t = foldl post_ngram st (line_events vocab line)"
    by (auto simp: index_line_def line_events_def split: option.splits sum.splits)
  with Cons.IH [OF rest] show ?case
    by (simp add: run_events_def)
qed

lemma build_index_run:
  "build_index vocab alignment = Inr st \<Longrightarrow> st = foldl post_ngram init_state (run_events vocab alignment)"
  unfolding build_index_def by (rule for_each_index_line)

lemma windows_set:
  "set (windows n) = {(b, e). b < n \<and> b < e \<and> e \<le> n \<and> e \<le> b + 4}"
proof -
  have "set (windows n) = (\<Union>b \<in> {0 ..< n}. Pair b ` {b + 1 ..< min (n + 1) (b + 5)})"
    by (simp add: windows_def)
  also have "\<dots> = {(b, e). b < n \<and> b < e \<and> e \<le> n \<and> e \<le> b + 4}"
  proof (rule set_eqI)
    fix x :: "nat \<times> nat"
    obtain b e where x: "x = (b, e)" by (cases x)
    have "x \<in> (\<Union>b \<in> {0 ..< n}. Pair b ` {b + 1 ..< min (n + 1) (b + 5)})
        \<longleftrightarrow> b < n \<and> e \<in> {b + 1 ..< min (n + 1) (b + 5)}"
      unfolding x by (simp add: image_iff) 
    also have "\<dots> \<longleftrightarrow> b < n \<and> b < e \<and> e \<le> n \<and> e \<le> b + 4"
      by (simp add: min_def) arith
    finally show "x \<in> (\<Union>b \<in> {0 ..< n}. Pair b ` {b + 1 ..< min (n + 1) (b + 5)})
        \<longleftrightarrow> x \<in> {(b, e). b < n \<and> b < e \<and> e \<le> n \<and> e \<le> b + 4}"
      by (simp add: x)
  qed
  finally show ?thesis .
qed

lemma new_ngrams_sound_aux:
  "(k, v) \<in> set (foldl (\<lambda>acc (ngram, lp_prev).
              if length ngram + length rep \<le> 10 \<and> b + count_sp ngram = begin
              then (if lp_prev + lp > - 4 then dict_set (ngram @ rep @ '' '') (lp_prev + lp) acc else acc)
              else acc) acc d) \<Longrightarrow>
   (k, v) \<in> set acc \<or>
   (\<exists>ngram lp_prev. (ngram, lp_prev) \<in> set d \<and> k = ngram @ rep @ '' '' \<and> v = lp_prev + lp \<and>
      length ngram + length rep \<le> 10 \<and> b + count_sp ngram = begin \<and> - 4 < lp_prev + lp)"
proof (induction d arbitrary: acc)
  case Nil
  then show ?case by simp
next
  case (Cons x d)
  obtain ngram lp_prev where x: "x = (ngram, lp_prev)" by (cases x)
  let ?acc = "if length ngram + length rep \<le> 10 \<and> b + count_sp ngram = begin
              then (if lp_prev + lp > - 4 then dict_set (ngram @ rep @ '' '') (lp_prev + lp) acc else acc)
              else acc"
  from Cons.prems have "(k, v) \<in> set ?acc \<or>
   (\<exists>ngram lp_prev. (ngram, lp_prev) \<in> set d \<and> k = ngram @ rep @ '' '' \<and> v = lp_prev + lp \<and>
      length ngram + length rep \<le> 10 \<and> b + count_sp ngram = begin \<and> - 4 < lp_prev + lp)"
    by (intro Cons.IH) (simp add: x)
  then show ?case
  proof
    assume "(k, v) \<in> set ?acc"
    then show ?thesis
      using set_dict_set [of "ngram @ rep @ '' ''" "lp_prev + lp" acc]
      by (auto simp: x split: if_splits)
  next
    assume "\<exists>ngram lp_prev. (ngram, lp_prev) \<in> set d \<and> k = ngram @ rep @ '' '' \<and> v = lp_prev + lp \<and>
      length ngram + length rep \<le> 10 \<and> b + count_sp ngram = begin \<and> - 4 < lp_prev + lp"
    then show ?thesis by (auto simp: x)
  qed
qed

lemma new_ngrams_sound:
  "(k, v) \<in> set (new_ngrams b begin rep lp d) \<Longrightarrow>
   \<exists>ngram lp_prev. (ngram, lp_prev) \<in> set d \<and> k = ngram @ rep @ '' '' \<and> v = lp_prev + lp \<and>
      length ngram + length rep \<le> 10 \<and> b + count_sp ngram = begin \<and> - 4 < lp_prev + lp"
  unfolding new_ngrams_def by (drule new_ngrams_sound_aux) simp

lemma grow_ok:
  assumes ok: "coverings_ok vocab inputs index_keys"
    and w: "(begin, end) \<in> set (windows (length inputs))"
    and r: "(rep0, p) \<in> set (dict_get [] vocab (join '' '' (slice begin end inputs)))"
    and pos: "0 < p"
    and rep: "rep = replace ''<DELETE>'' ''='' rep0"
    and ne: "strip rep \<noteq> []"
    and lo: "end - 5 \<le> b" and hi: "b < end"
  shows "coverings_ok vocab inputs (grow begin rep (ln p) index_keys b)"
proof (cases "b < length index_keys")
  case False
  then show ?thesis using ok by (simp add: grow_def list_update_beyond)
next
  case True
  have "covering vocab inputs b k v"
    if "(k, v) \<in> set (dict_union (index_keys ! b) (new_ngrams b begin rep (ln p) (index_keys ! b)))"
    for k v
  proof -
    from that set_dict_union have "(k, v) \<in> set (index_keys ! b) \<or>
        (k, v) \<in> set (new_ngrams b begin rep (ln p) (index_keys ! b))"
      by fastforce
    then show ?thesis
    proof
      assume "(k, v) \<in> set (index_keys ! b)"
      with ok True show ?thesis by (auto simp: coverings_ok_def)
    next
      assume "(k, v) \<in> set (new_ngrams b begin rep (ln p) (index_keys ! b))"
      from new_ngrams_sound [OF this] obtain ngram lp_prev where
        m: "(ngram, lp_prev) \<in> set (index_keys ! b)" and k: "k = ngram @ rep @ '' ''"
        and v: "v = lp_prev + ln p" and len: "length ngram + length rep \<le> 10"
        and adj: "b + count_sp ngram = begin" and thr: "- 4 < lp_prev + ln p"
        by blast
      from ok True m have "covering vocab inputs b ngram lp_prev"
        by (auto simp: coverings_ok_def)
      from covering.extend [OF this w r pos rep ne lo hi len adj thr] show ?thesis
        by (simp add: k v)
    qed
  qed
  with ok True show ?thesis
    by (auto simp: coverings_ok_def grow_def nth_list_update)
qed

lemma foldl_grow_ok:
  assumes "coverings_ok vocab inputs index_keys"
    and "(begin, end) \<in> set (windows (length inputs))"
    and "(rep0, p) \<in> set (dict_get [] vocab (join '' '' (slice begin end inputs)))"
    and "0 < p"
    and "rep = replace ''<DELETE>'' ''='' rep0"
    and "strip rep \<noteq> []"
    and "set bs \<subseteq> {end - 5 ..< end}"
  shows "coverings_ok vocab inputs (foldl (grow begin rep (ln p)) index_keys bs)"
  using assms(1,7)
proof (induction bs arbitrary: index_keys)
  case Nil
  then show ?case by simp
next
  case (Cons b bs)
  from Cons.prems(2) have "end - 5 \<le> b" and "b < end" and sub: "set bs \<subseteq> {end - 5 ..< end}"
    by auto
  from grow_ok [OF Cons.prems(1) assms(2-6) this(1,2)] Cons.IH [OF _ sub] show ?case
    by simp
qed

lemma expand_rep_ok:
  assumes ok: "coverings_ok vocab inputs index_keys"
    and w: "(begin, end) \<in> set (windows (length inputs))"
    and r: "(rep0, p) \<in> set (dict_get [] vocab (join '' '' (slice begin end inputs)))"
    and res: "expand_rep begin end (rep0, p) index_keys = Inr index_keys'"
  shows "coverings_ok vocab inputs index_keys'"
proof -
  define rep where "rep = replace ''<DELETE>'' ''='' rep0"
  define grown where "grown = foldl (grow begin rep (ln p)) index_keys [end - 5 ..< end]"
  from res have pos: "0 < p"
    by (auto simp: expand_rep_def split: if_splits)
  show ?thesis
  proof (cases "strip rep = []")
    case True
    with res ok show ?thesis
      by (auto simp: expand_rep_def Let_def rep_def split: if_splits)
  next
    case False
    have g: "coverings_ok vocab inputs grown"
      unfolding grown_def by (rule foldl_grow_ok [OF ok w r pos rep_def False]) simp
    show ?thesis
    proof (cases "- 4 < ln p")
      case False
      with res \<open>strip rep \<noteq> []\<close> have "index_keys' = grown"
        by (auto simp: expand_rep_def Let_def rep_def grown_def split: if_splits)
      with g show ?thesis by simp
    next
      case True
      with res \<open>strip rep \<noteq> []\<close>
      have eq: "index_keys' = grown[begin := dict_set (rep @ '' '') (ln p) (grown ! begin)]"
        by (auto simp: expand_rep_def Let_def rep_def grown_def split: if_splits)
      have f: "covering vocab inputs begin (rep @ '' '') (ln p)"
        by (rule covering.fresh [OF w r pos rep_def \<open>strip rep \<noteq> []\<close> True])
      have "covering vocab inputs b k v"
        if "b < length grown" and "(k, v) \<in> set (index_keys' ! b)" for b k v
      proof (cases "b = begin")
        case True
        with that eq have "(k, v) \<in> set (dict_set (rep @ '' '') (ln p) (grown ! begin))"
          by simp
        with set_dict_set have "(k, v) = (rep @ '' '', ln p) \<or> (k, v) \<in> set (grown ! begin)"
          by fastforce
        with f g that True show ?thesis by (auto simp: coverings_ok_def)
      next
        case False
        with that eq g show ?thesis by (auto simp: coverings_ok_def)
      qed
      with g eq show ?thesis by (auto simp: coverings_ok_def)
    qed
  qed
qed

lemma expand_window_ok:
  assumes ok: "coverings_ok vocab inputs index_keys"
    and w: "(begin, end) \<in> set (windows (length inputs))"
    and res: "expand_window vocab inputs (begin, end) index_keys = Inr index_keys'"
  shows "coverings_ok vocab inputs index_keys'"
proof (cases "map_of vocab (join '' '' (slice begin end inputs))")
  case None
  with res ok show ?thesis by (simp add: expand_window_def)
next
  case (Some reps)
  with res have fe: "for_each (expand_rep begin end) reps index_keys = Inr index_keys'"
    by (simp add: expand_window_def)
  have reps: "dict_get [] vocab (join '' '' (slice begin end inputs)) = reps"
    using Some by (simp add: dict_get_def)
  show ?thesis
  proof (rule for_each_invariant [where P = "coverings_ok vocab inputs", OF fe ok])
    fix x t t'
    assume x: "x \<in> set reps" and t: "coverings_ok vocab inputs t"
      and r: "expand_rep begin end x t = Inr t'"
    obtain rep0 p where xp: "x = (rep0, p)" by (cases x)
    show "coverings_ok vocab inputs t'"
      by (rule expand_rep_ok [OF t w _ r [unfolded xp]]) (use x xp reps in simp)
  qed
qed

lemma expand_phrase_ok:
  assumes "expand_phrase vocab phrase = Inr index_keys"
  shows "coverings_ok vocab (split_on CHR '' '' phrase) index_keys"
proof -
  let ?inputs = "split_on CHR '' '' phrase"
  from assms have fe: "for_each (expand_window vocab ?inputs) (windows (length ?inputs))
      (replicate (length ?inputs) []) = Inr index_keys"
    by (simp add: expand_phrase_def Let_def)
  have init: "coverings_ok vocab ?inputs (replicate (length ?inputs) [])"
    by (simp add: coverings_ok_def)
  show ?thesis
  proof (rule for_each_invariant [where P = "coverings_ok vocab ?inputs", OF fe init])
    fix x t t'
    assume x: "x \<in> set (windows (length ?inputs))" and t: "coverings_ok vocab ?inputs t"
      and r: "expand_window vocab ?inputs x t = Inr t'"
    obtain b e where xp: "x = (b, e)" by (cases x)
    show "coverings_ok vocab ?inputs t'"
      by (rule expand_window_ok [OF t _ r [unfolded xp]]) (use x xp in simp)
  qed
qed

section \<open>Events, postings and written rows\<close>

lemma covering_threshold: "covering vocab inputs b ngram lp \<Longrightarrow> - 4 < lp"
  by (erule covering.cases) simp_all

lemma phrase_events_mem:
  assumes "e \<in> set (phrase_events phrase index_keys)"
  obtains b ngram lp where "b < length index_keys" and "(ngram, lp) \<in> set (index_keys ! b)"
    and "e = (collapse ngram, phrase, b, count_sp ngram, lp)"
proof -
  from assms obtain b x where b: "b < length index_keys"
    and x: "x \<in> set (sort_key (\<lambda>(ngram, lp). - lp) (index_keys ! b))"
    and e: "e = (case x of (ngram, lp) \<Rightarrow> (collapse ngram, phrase, b, count_sp ngram, lp))"
    unfolding phrase_events_def set_concat set_map by auto
  obtain ngram lp where xp: "x = (ngram, lp)" by (cases x)
  from x have "(ngram, lp) \<in> set (index_keys ! b)" by (simp add: xp)
  with b e xp that show thesis by simp
qed

lemma line_events_mem:
  assumes "e \<in> set (line_events vocab line)"
  obtains phrase dst align index_keys b ngram lp where
    "process_line line = Some (phrase, dst, align)" and "expand_phrase vocab phrase = Inr index_keys"
    and "b < length index_keys" and "(ngram, lp) \<in> set (index_keys ! b)"
    and "e = (collapse ngram, phrase, b, count_sp ngram, lp)"
proof -
  from assms obtain phrase dst align where p: "process_line line = Some (phrase, dst, align)"
    by (cases "process_line line") (auto simp: line_events_def)
  with assms obtain index_keys where x: "expand_phrase vocab phrase = Inr index_keys"
    by (cases "expand_phrase vocab phrase") (auto simp: line_events_def)
  with assms p have m: "e \<in> set (phrase_events phrase index_keys)"
    by (simp add: line_events_def)
  from m p x that show thesis by (elim phrase_events_mem) blast
qed

lemma run_events_mem:
  "e \<in> set (run_events vocab alignment) \<longleftrightarrow> (\<exists>line \<in> set alignment. e \<in> set (line_events vocab line))"
  by (auto simp: run_events_def)

lemma expand_phrase_covering:
  assumes "expand_phrase vocab phrase = Inr index_keys" and "b < length index_keys"
    and "(ngram, lp) \<in> set (index_keys ! b)"
  shows "covering vocab (split_on CHR '' '' phrase) b ngram lp"
  using expand_phrase_ok [OF assms(1)] assms(2,3) by (auto simp: coverings_ok_def)

lemma run_events_threshold:
  assumes "(ngram, phrase, b, len, lp) \<in> set (run_events vocab alignment)"
  shows "- 4 < lp"
proof -
  from assms obtain line where "(ngram, phrase, b, len, lp) \<in> set (line_events vocab line)"
    by (auto simp: run_events_mem)
  then show ?thesis
    by (elim line_events_mem) (auto dest: expand_phrase_covering covering_threshold)
qed

lemma postings_of_run:
  assumes "build_index vocab alignment = Inr st"
  shows "dict_get [] (ngram_to_phrase_and_position st) ng =
     (if length (ngram_events ng (run_events vocab alignment)) \<le> 100
      then ngram_events ng (run_events vocab alignment) else [])"
  using run_postings [of "run_events vocab alignment"] build_index_run [OF assms]
  by (auto simp: dict_get_def)

lemma ngram_events_mem: "p \<in> set (ngram_events ng evs) \<longleftrightarrow> (ng, p) \<in> set evs"
  by (force simp: ngram_events_def)

lemma index_rows_mem:
  "r \<in> set (index_rows st) \<longleftrightarrow>
     (\<exists>ngram posting. r = (ngram, posting) \<and> ngram \<in> fst ` set (index_freq st) \<and>
        posting \<in> set (dict_get [] (ngram_to_phrase_and_position st) ngram))"
  unfolding index_rows_def set_concat set_map set_sort by force

lemma index_rows_subset:
  assumes "build_index vocab alignment = Inr st"
  shows "set (index_rows st) \<subseteq> set (run_events vocab alignment)"
proof
  fix r
  assume "r \<in> set (index_rows st)"
  then obtain ngram posting where r: "r = (ngram, posting)"
    and p: "posting \<in> set (dict_get [] (ngram_to_phrase_and_position st) ngram)"
    by (auto simp: index_rows_mem)
  from p have "posting \<in> set (ngram_events ngram (run_events vocab alignment))"
    by (simp add: postings_of_run [OF assms] split: if_splits)
  then show "r \<in> set (run_events vocab alignment)"
    by (simp add: r ngram_events_mem)
qed

section \<open>Evaluation of concrete runs\<close>

lemmas string_eval = strip_def isspace_def replace.simps count_sp_def slice_def tab_def newline_def
  collapse_def str_nat.simps digit_char_def

lemmas expander_eval = expand_phrase_def windows_def expand_window_def expand_rep_def grow_def
  new_ngrams_def dict_union_def dict_get_def upt_rec Let_def

lemma ln_half_bounds: "- 1 < ln (1 / 2 :: real)" "ln (1 / 2 :: real) < 0"
  using ln_2_less_1 by (simp_all add: ln_div)

lemma exp_minus_4_gt: "1 / 100 < exp (- 4 :: real)"
proof -
  have "exp (4 :: real) = exp 1 ^ 4"
    by (simp flip: exp_of_nat_mult)
  also have "\<dots> \<le> 3 ^ 4"
    by (intro power_mono exp_le) simp
  finally have "exp (4 :: real) < 100" by simp
  then have "1 / 100 < 1 / exp (4 :: real)"
    by (simp add: field_simps)
  then show ?thesis by (simp add: exp_minus field_simps)
qed

lemma scenario_expand:
  "expand_phrase scenario_vocab ''a b c'' =
     Inr [[(''x '', ln (1 / 2)), (''x y '', ln (1 / 2) + ln (1 / 2))], [(''y '', ln (1 / 2))], []]"
  using ln_half_bounds by (simp add: scenario_vocab_def expander_eval string_eval)

lemma scenario_process_line: "process_line scenario_line = Some (''a b c'', ''x y z'', ''x y z'')"
  by (simp add: scenario_line_def process_line_def string_eval)

lemma scenario_events:
  "run_events scenario_vocab [scenario_line] =
     [(''x'', ''a b c'', 0, 1, ln (1 / 2)), (''x y'', ''a b c'', 0, 2, ln (1 / 2) + ln (1 / 2)),
      (''y'', ''a b c'', 1, 1, ln (1 / 2))]"
  using ln_half_bounds
  by (simp add: run_events_def line_events_def scenario_process_line scenario_expand phrase_events_def
      string_eval upt_rec)

section \<open>The pruning threshold\<close>

lemma vocab_entry:
  assumes "(rep0, p) \<in> set (dict_get [] vocab inp)"
  shows "\<exists>reps. (inp, reps) \<in> set vocab \<and> (rep0, p) \<in> set reps"
proof (cases "map_of vocab inp")
  case None
  with assms show ?thesis by (simp add: dict_get_def)
next
  case (Some reps)
  with assms have "(rep0, p) \<in> set reps" by (simp add: dict_get_def)
  with map_of_SomeD [OF Some] show ?thesis by blast
qed

lemma rare_no_covering:
  assumes rare: "\<And>src reps rep p. (src, reps) \<in> set vocab \<Longrightarrow> (rep, p) \<in> set reps \<Longrightarrow> p < exp (- 4)"
  shows "\<not> covering vocab inputs b ngram lp"
proof
  assume "covering vocab inputs b ngram lp"
  then show False
  proof (induction rule: covering.induct)
    case (fresh "begin" "end" rep0 p rep)
    from vocab_entry [OF fresh(2)] rare have "p < exp (- 4)" by blast
    with \<open>0 < p\<close> have "ln p < - 4"
      by (metis exp_less_cancel_iff exp_ln)
    with \<open>- 4 < ln p\<close> show False by simp
  next
    case extend
    then show False by simp
  qed
qed

lemma rare_no_events:
  assumes "\<And>src reps rep p. (src, reps) \<in> set vocab \<Longrightarrow> (rep, p) \<in> set reps \<Longrightarrow> p < exp (- 4)"
  shows "run_events vocab alignment = []"
proof -
  have none: "e \<notin> set (run_events vocab alignment)" for e
  proof
    assume "e \<in> set (run_events vocab alignment)"
    then obtain line where "e \<in> set (line_events vocab line)"
      by (auto simp: run_events_mem)
    then obtain phrase index_keys b ngram lp where
      x: "expand_phrase vocab phrase = Inr index_keys" "b < length index_keys"
        "(ngram, lp) \<in> set (index_keys ! b)"
      by (rule line_events_mem)
    have "\<not> covering vocab (split_on CHR '' '' phrase) b ngram lp"
      by (rule rare_no_covering) (rule assms)
    with expand_phrase_covering [OF x] show False by simp
  qed
  show ?thesis
  proof (cases "run_events vocab alignment")
    case Nil
    then show ?thesis .
  next
    case (Cons e es)
    with none [of e] show ?thesis by simp
  qed
qed

text \<open>
  C5. Every log-probability recorded by the expander, every posting the run generates and
  every posting written is strictly greater than \<open>-4\<close>, so a score of exactly \<open>-4\<close> is
  never kept, whether it comes from a fresh start or from an extension. A table whose
  probabilities all lie below \<open>exp (-4)\<close> generates no posting at all.
\<close>

theorem pruning_threshold_strict:
  "(expand_phrase vocab phrase = Inr index_keys \<longrightarrow> b < length index_keys \<longrightarrow>
      (ngram, lp) \<in> set (index_keys ! b) \<longrightarrow> - 4 < lp) \<and>
   ((ng, ph, b', len, lp') \<in> set (run_events vocab alignment) \<longrightarrow> - 4 < lp') \<and>
   (build_index vocab alignment = Inr st \<longrightarrow> (ng, ph, b', len, lp') \<in> set (index_rows st) \<longrightarrow> - 4 < lp') \<and>
   ((\<forall>(src, reps) \<in> set vocab. \<forall>(rep, p) \<in> set reps. p < exp (- 4)) \<longrightarrow>
      run_events vocab alignment = [] \<and>
      (build_index vocab alignment = Inr st \<longrightarrow> st = init_state \<and> index_rows st = []))"
proof (intro conjI impI)
  assume "expand_phrase vocab phrase = Inr index_keys" "b < length index_keys"
    "(ngram, lp) \<in> set (index_keys ! b)"
  then show "- 4 < lp"
    by (rule covering_threshold [OF expand_phrase_covering])
next
  assume "(ng, ph, b', len, lp') \<in> set (run_events vocab alignment)"
  then show "- 4 < lp'" by (rule run_events_threshold)
next
  assume "build_index vocab alignment = Inr st" "(ng, ph, b', len, lp') \<in> set (index_rows st)"
  with index_rows_subset have "(ng, ph, b', len, lp') \<in> set (run_events vocab alignment)"
    by blast
  then show "- 4 < lp'" by (rule run_events_threshold)
next
  assume rare: "\<forall>(src, reps) \<in> set vocab. \<forall>(rep, p) \<in> set reps. p < exp (- 4)"
  then have none: "run_events vocab alignment = []"
    by (intro rare_no_events) blast
  then show "run_events vocab alignment = []" .
  assume "build_index vocab alignment = Inr st"
  from build_index_run [OF this] none show "st = init_state" by simp
  then show "index_rows st = []" by (simp add: index_rows_def init_state_def)
qed

theorem pruning_threshold_strict_witness:
  "expand_phrase scenario_vocab ''a b c'' =
     Inr [[(''x '', ln (1 / 2)), (''x y '', ln (1 / 2) + ln (1 / 2))], [(''y '', ln (1 / 2))], []] \<and>
   - 4 < ln (1 / 2 :: real) + ln (1 / 2) \<and>
   (''x y'', ''a b c'', 0, 2, ln (1 / 2) + ln (1 / 2)) \<in> set (run_events scenario_vocab [scenario_line]) \<and>
   (1 / 100 :: real) < exp (- 4) \<and>
   run_events rare_vocab [scenario_line] = []"
proof -
  let ?ik = "[[(''x '', ln (1 / 2 :: real)), (''x y '', ln (1 / 2) + ln (1 / 2))], [(''y '', ln (1 / 2))], []]"
  have a: "expand_phrase scenario_vocab ''a b c'' = Inr ?ik"
    by (rule scenario_expand)
  have m: "(''x y '', ln (1 / 2 :: real) + ln (1 / 2)) \<in> set (?ik ! 0)"
    by simp
  have b: "- 4 < ln (1 / 2 :: real) + ln (1 / 2)"
    using pruning_threshold_strict [of scenario_vocab "''a b c''" ?ik 0 "''x y ''" "ln (1 / 2) + ln (1 / 2)"] a m
    by simp
  have c: "(''x y'', ''a b c'', 0, 2, ln (1 / 2 :: real) + ln (1 / 2)) \<in> set (run_events scenario_vocab [scenario_line])"
    by (simp add: scenario_events)
  have r: "\<forall>(src, reps) \<in> set rare_vocab. \<forall>(rep, p) \<in> set reps. p < exp (- 4)"
    using exp_minus_4_gt by (simp add: rare_vocab_def)
  have d: "run_events rare_vocab [scenario_line] = []"
    using pruning_threshold_strict [of rare_vocab _ _ _ _ _ _ _ _ _ _ "[scenario_line]"] r
    by blast
  from a b c exp_minus_4_gt d show ?thesis by blast
qed

section \<open>Popularity counter and ban\<close>

lemma ngram_events_replicate: "ngram_events ng (replicate n (ng, p)) = replicate n p"
  by (induction n) (simp_all add: ngram_events_def)

lemma ngram_events_append:
  "ngram_events ng (evs @ later) = ngram_events ng evs @ ngram_events ng later"
  by (simp add: ngram_events_def)

lemma key_of_run:
  "ng \<in> fst ` set (ngram_to_phrase_and_position (foldl post_ngram init_state evs)) \<longleftrightarrow>
     ngram_events ng evs \<noteq> [] \<and> length (ngram_events ng evs) \<le> 100"
proof -
  let ?d = "ngram_to_phrase_and_position (foldl post_ngram init_state evs)"
  have "ng \<in> fst ` set ?d \<longleftrightarrow> map_of ?d ng \<noteq> None"
    by (simp add: map_of_eq_None_iff)
  also have "\<dots> \<longleftrightarrow> ngram_events ng evs \<noteq> [] \<and> length (ngram_events ng evs) \<le> 100"
    using run_postings [of evs] by simp
  finally show ?thesis .
qed

lemma postings_of_events:
  "dict_get [] (ngram_to_phrase_and_position (foldl post_ngram init_state evs)) ng =
     (if length (ngram_events ng evs) \<le> 100 then ngram_events ng evs else [])"
  using run_postings [of evs] by (auto simp: dict_get_def)

text \<open>
  C4. Every generation of an n-gram adds one to its popularity counter, whatever the state
  (also when the n-gram is banned), so after any sequence of events the counter is the
  number of events for the n-gram. While that number is at most 100 the n-gram is not
  banned and holds all its postings; the posting that makes the count exceed 100 bans the
  n-gram and deletes its entry, and after any further events it is still banned and still
  has no entry.
\<close>

theorem popularity_counter_and_ban:
  "dict_get 0 (index_freq (post_ngram st (ng, p))) ng = dict_get 0 (index_freq st) ng + 1 \<and>
   dict_get 0 (index_freq (foldl post_ngram init_state evs)) ng = length (ngram_events ng evs) \<and>
   (length (ngram_events ng evs) \<le> 100 \<longrightarrow>
      ng \<notin> ban_ngram (foldl post_ngram init_state evs) \<and>
      dict_get [] (ngram_to_phrase_and_position (foldl post_ngram init_state evs)) ng = ngram_events ng evs) \<and>
   (length (ngram_events ng evs) = 100 \<longrightarrow>
      ng \<in> ban_ngram (post_ngram (foldl post_ngram init_state evs) (ng, p)) \<and>
      ng \<notin> fst ` set (ngram_to_phrase_and_position (post_ngram (foldl post_ngram init_state evs) (ng, p)))) \<and>
   (100 < length (ngram_events ng evs) \<longrightarrow>
      ng \<in> ban_ngram (foldl post_ngram (foldl post_ngram init_state evs) later) \<and>
      ng \<notin> fst ` set (ngram_to_phrase_and_position (foldl post_ngram (foldl post_ngram init_state evs) later)) \<and>
      dict_get 0 (index_freq (foldl post_ngram (foldl post_ngram init_state evs) later)) ng =
        length (ngram_events ng evs) + length (ngram_events ng later))"
proof (intro conjI impI)
  show "dict_get 0 (index_freq (post_ngram st (ng, p))) ng = dict_get 0 (index_freq st) ng + 1"
    by (simp add: index_freq_post_ngram dict_get_dict_set)
  show "dict_get 0 (index_freq (foldl post_ngram init_state evs)) ng = length (ngram_events ng evs)"
    using run_index_freq [of evs] by simp
next
  assume "length (ngram_events ng evs) \<le> 100"
  then show "ng \<notin> ban_ngram (foldl post_ngram init_state evs)"
    using run_postings [of evs] by simp
  show "dict_get [] (ngram_to_phrase_and_position (foldl post_ngram init_state evs)) ng = ngram_events ng evs"
    using \<open>length (ngram_events ng evs) \<le> 100\<close> by (simp add: postings_of_events)
next
  assume n: "length (ngram_events ng evs) = 100"
  have step: "post_ngram (foldl post_ngram init_state evs) (ng, p) = foldl post_ngram init_state (evs @ [(ng, p)])"
    by simp
  have len: "length (ngram_events ng (evs @ [(ng, p)])) = 101"
    using n by (simp add: ngram_events_snoc)
  show "ng \<in> ban_ngram (post_ngram (foldl post_ngram init_state evs) (ng, p))"
    unfolding step using run_postings [of "evs @ [(ng, p)]"] len by simp
  show "ng \<notin> fst ` set (ngram_to_phrase_and_position (post_ngram (foldl post_ngram init_state evs) (ng, p)))"
    unfolding step key_of_run using len by simp
next
  assume n: "100 < length (ngram_events ng evs)"
  have run: "foldl post_ngram (foldl post_ngram init_state evs) later = foldl post_ngram init_state (evs @ later)"
    by simp
  have len: "100 < length (ngram_events ng (evs @ later))"
    using n by (simp add: ngram_events_append)
  show "ng \<in> ban_ngram (foldl post_ngram (foldl post_ngram init_state evs) later)"
    unfolding run using run_postings [of "evs @ later"] len by simp
  show "ng \<notin> fst ` set (ngram_to_phrase_and_position (foldl post_ngram (foldl post_ngram init_state evs) later))"
    unfolding run key_of_run using len by simp
  show "dict_get 0 (index_freq (foldl post_ngram (foldl post_ngram init_state evs) later)) ng =
        length (ngram_events ng evs) + length (ngram_events ng later)"
    unfolding run using run_index_freq [of "evs @ later"] by (simp add: ngram_events_append)
qed

theorem popularity_counter_and_ban_witness:
  "length (ngram_events ''z'' (replicate 100 ban_event)) = 100 \<and>
   ''z'' \<notin> ban_ngram (foldl post_ngram init_state (replicate 100 ban_event)) \<and>
   dict_get [] (ngram_to_phrase_and_position (foldl post_ngram init_state (replicate 100 ban_event))) ''z''
     = replicate 100 (''p q'', 0, 1, 0) \<and>
   ''z'' \<in> ban_ngram (post_ngram (foldl post_ngram init_state (replicate 100 ban_event)) ban_event) \<and>
   ''z'' \<notin> fst ` set (ngram_to_phrase_and_position
       (post_ngram (foldl post_ngram init_state (replicate 100 ban_event)) ban_event)) \<and>
   length (ngram_events ''z'' (replicate 101 ban_event)) = 101 \<and>
   ''z'' \<in> ban_ngram (foldl post_ngram (foldl post_ngram init_state (replicate 101 ban_event)) [ban_event]) \<and>
   dict_get 0 (index_freq (foldl post_ngram (foldl post_ngram init_state (replicate 101 ban_event)) [ban_event])) ''z''
     = 102"
proof -
  have e: "ngram_events ''z'' (replicate n ban_event) = replicate n (''p q'', 0, 1, 0)" for n
    unfolding ban_event_def by (rule ngram_events_replicate)
  have a: "length (ngram_events ''z'' (replicate 100 ban_event)) = 100"
    and b: "length (ngram_events ''z'' (replicate 101 ban_event)) = 101"
    by (simp_all only: e length_replicate)
  have c: "length (ngram_events ''z'' [ban_event]) = 1"
    by (simp add: ngram_events_def ban_event_def)
  note t1 = popularity_counter_and_ban [of init_state "''z''" "(''p q'', 0, 1, 0)" "replicate 100 ban_event" "[]"]
  note t2 = popularity_counter_and_ban [of init_state "''z''" "(''p q'', 0, 1, 0)" "replicate 101 ban_event" "[ban_event]"]
  from t1 a have "''z'' \<notin> ban_ngram (foldl post_ngram init_state (replicate 100 ban_event)) \<and>
   dict_get [] (ngram_to_phrase_and_position (foldl post_ngram init_state (replicate 100 ban_event))) ''z''
     = replicate 100 (''p q'', 0, 1, 0) \<and>
   ''z'' \<in> ban_ngram (post_ngram (foldl post_ngram init_state (replicate 100 ban_event)) ban_event) \<and>
   ''z'' \<notin> fst ` set (ngram_to_phrase_and_position
       (post_ngram (foldl post_ngram init_state (replicate 100 ban_event)) ban_event))"
    by (simp only: e ban_event_def [symmetric] le_refl simp_thms length_replicate)
  moreover from t2 b c have
   "''z'' \<in> ban_ngram (foldl post_ngram (foldl post_ngram init_state (replicate 101 ban_event)) [ban_event]) \<and>
   dict_get 0 (index_freq (foldl post_ngram (foldl post_ngram init_state (replicate 101 ban_event)) [ban_event])) ''z''
     = 102"
    by (simp del: replicate.simps foldl_Cons foldl_Nil foldl.simps)
  ultimately show ?thesis using a b by blast
qed

section \<open>A run with 101 phrases for one n-gram\<close>

lemma split_on_none: "sep \<notin> set a \<Longrightarrow> split_on sep a = [a]"
  by (induction a) (auto simp: Let_def)

lemma split_on_first: "sep \<notin> set a \<Longrightarrow> split_on sep (a @ sep # rest) = a # split_on sep rest"
  by (induction a) (auto simp: Let_def)

lemma strip_plain:
  assumes "s \<noteq> []" and "\<not> isspace (hd s)" and "\<not> isspace (last s)" and "list_all isspace ws"
  shows "strip (s @ ws) = s"
proof -
  from assms(1,2) have front: "dropWhile isspace (s @ ws) = s @ ws"
    by (cases s) auto
  from assms(4) have "dropWhile isspace (rev ws) = []"
    by (simp add: list_all_iff)
  then have "dropWhile isspace (rev ws @ rev s) = dropWhile isspace (rev s)"
    by (simp add: dropWhile_append)
  also from assms(1,3) have "\<dots> = rev s"
    by (cases "rev s") (auto simp: last_rev [symmetric] hd_rev simp del: last_rev)
  finally show ?thesis
    by (simp add: strip_def front)
qed

lemma ban_process_line: "process_line (ban_line k) = Some (ban_phrase k, ''x'', ''x'')"
proof -
  let ?s = "''good:'' @ [tab] @ ban_phrase k @ [tab] @ ''x'' @ [tab] @ ''x''"
  have "strip (?s @ [newline]) = ?s"
    by (rule strip_plain) (simp_all add: isspace_def newline_def)
  then have s: "strip (ban_line k) = ?s"
    by (simp add: ban_line_def)
  have t: "tab \<notin> set (ban_phrase k)"
    by (auto simp: ban_phrase_def tab_def)
  have "split_on tab ?s = [''good:'', ban_phrase k, ''x'', ''x'']"
    using split_on_first [OF t, of "''x'' @ [tab] @ ''x''"]
    by (simp add: tab_def Let_def)
  then show ?thesis
    by (simp add: process_line_def s Let_def)
qed

lemma ban_inputs: "split_on CHR '' '' (ban_phrase k) = [''p'', replicate (Suc k) CHR ''q'']"
proof -
  have "split_on CHR '' '' (replicate (Suc k) CHR ''q'') = [replicate (Suc k) CHR ''q'']"
    by (rule split_on_none) (simp del: replicate.simps)
  then show ?thesis
    by (simp add: ban_phrase_def Let_def del: replicate.simps)
qed

lemma ban_expand: "expand_phrase ban_vocab (ban_phrase k) = Inr [[(''z '', 0)], []]"
  unfolding expand_phrase_def ban_inputs
  by (simp add: ban_vocab_def windows_def expand_window_def expand_rep_def grow_def new_ngrams_def
      dict_union_def dict_get_def upt_rec Let_def string_eval)

lemma ban_line_events: "line_events ban_vocab (ban_line k) = [(''z'', ban_phrase k, 0, 1, 0)]"
  by (simp add: line_events_def ban_process_line ban_expand phrase_events_def upt_rec string_eval)

lemma index_line_events:
  assumes "\<And>phrase dst align. process_line line = Some (phrase, dst, align) \<Longrightarrow>
      \<exists>index_keys. expand_phrase vocab phrase = Inr index_keys"
  shows "index_line vocab line st = Inr (foldl post_ngram st (line_events vocab line))"
proof (cases "process_line line")
  case None
  then show ?thesis by (simp add: index_line_def line_events_def)
next
  case (Some t)
  obtain phrase dst align where t: "t = (phrase, dst, align)" by (cases t)
  from assms Some t obtain index_keys where "expand_phrase vocab phrase = Inr index_keys"
    by blast
  with Some t show ?thesis by (simp add: index_line_def line_events_def)
qed

lemma for_each_index_line_events:
  assumes "\<And>line phrase dst align. line \<in> set alignment \<Longrightarrow>
      process_line line = Some (phrase, dst, align) \<Longrightarrow>
      \<exists>index_keys. expand_phrase vocab phrase = Inr index_keys"
  shows "for_each (index_line vocab) alignment st = Inr (foldl post_ngram st (run_events vocab alignment))"
  using assms
proof (induction alignment arbitrary: st)
  case Nil
  show ?case by (simp add: run_events_def)
next
  case (Cons line alignment)
  have "index_line vocab line st = Inr (foldl post_ngram st (line_events vocab line))"
    by (rule index_line_events) (rule Cons.prems [of line], simp_all)
  moreover have "for_each (index_line vocab) alignment (foldl post_ngram st (line_events vocab line))
      = Inr (foldl post_ngram (foldl post_ngram st (line_events vocab line)) (run_events vocab alignment))"
    by (rule Cons.IH) (rule Cons.prems, simp_all)
  ultimately show ?case by (simp add: run_events_def)
qed

lemma build_index_events:
  assumes "\<And>line phrase dst align. line \<in> set alignment \<Longrightarrow>
      process_line line = Some (phrase, dst, align) \<Longrightarrow>
      \<exists>index_keys. expand_phrase vocab phrase = Inr index_keys"
  shows "build_index vocab alignment = Inr (foldl post_ngram init_state (run_events vocab alignment))"
  unfolding build_index_def by (rule for_each_index_line_events) (rule assms)

lemma ban_run_events:
  "run_events ban_vocab (map ban_line ks) = map (\<lambda>k. (''z'', ban_phrase k, 0, 1, 0)) ks"
  by (induction ks) (simp_all add: run_events_def ban_line_events)

lemma ban_build_index:
  "build_index ban_vocab ban_alignment =
     Inr (foldl post_ngram init_state (run_events ban_vocab ban_alignment))"
proof (rule build_index_events)
  fix line phrase dst align
  assume "line \<in> set ban_alignment" and p: "process_line line = Some (phrase, dst, align)"
  then obtain k where "line = ban_line k" by (auto simp: ban_alignment_def)
  with p have "phrase = ban_phrase k" by (simp add: ban_process_line)
  then show "\<exists>index_keys. expand_phrase ban_vocab phrase = Inr index_keys"
    by (simp add: ban_expand)
qed

lemma ban_ngram_events:
  "ngram_events ng (run_events ban_vocab ban_alignment) =
     (if ng = ''z'' then map (\<lambda>k. (ban_phrase k, 0, 1, 0)) [0 ..< 101] else [])"
  unfolding ban_alignment_def ban_run_events
  by (simp add: ngram_events_def filter_map comp_def del: upt.simps)

lemma ban_final_state:
  "foldl post_ngram init_state (run_events ban_vocab ban_alignment) =
     \<lparr>index_freq = [(''z'', 101)], ngram_to_phrase_and_position = [], ban_ngram = {''z''}\<rparr>"
proof -
  let ?evs = "run_events ban_vocab ban_alignment"
  let ?st = "foldl post_ngram init_state ?evs"
  have fs: "first_seen ?evs = [''z'']"
  proof -
    have "map fst ?evs = replicate 101 ''z''"
      unfolding ban_alignment_def ban_run_events
      by (simp add: comp_def map_replicate_const del: upt.simps)
    then have "first_seen ?evs = rev (remdups (replicate 101 ''z''))"
      by (simp add: first_seen_def del: replicate.simps)
    moreover have "remdups (replicate (Suc n) x) = [x]" for n and x :: string
      by (induction n) simp_all
    from this [of 100 "''z''"] have "remdups (replicate 101 ''z'') = [''z'']"
      by (simp del: replicate.simps remdups.simps)
    ultimately show ?thesis by simp
  qed
  have keys: "map fst (index_freq ?st) = [''z'']"
    using run_index_freq [of ?evs] fs by simp
  then obtain v where iv: "index_freq ?st = [(''z'', v)]"
    by (cases "index_freq ?st") auto
  have "dict_get 0 (index_freq ?st) ''z'' = 101"
    using run_index_freq [of ?evs] by (simp add: ban_ngram_events del: upt.simps)
  with iv have freq: "index_freq ?st = [(''z'', 101)]"
    by (simp add: dict_get_def)
  have "ng \<notin> fst ` set (ngram_to_phrase_and_position ?st)" for ng
    unfolding key_of_run ban_ngram_events by simp
  then have tbl: "ngram_to_phrase_and_position ?st = []"
    by (cases "ngram_to_phrase_and_position ?st") force+
  have ban: "ban_ngram ?st = {''z''}"
    using run_postings [of ?evs] by (auto simp: ban_ngram_events simp del: upt.simps)
  show ?thesis
    by (rule index_state.equality) (simp_all add: freq tbl ban)
qed

lemma ban_phrases_distinct: "distinct (map ban_phrase ks) \<longleftrightarrow> distinct ks"
proof -
  have "inj ban_phrase"
  proof (rule injI)
    fix a b
    assume "ban_phrase a = ban_phrase b"
    then have "length (ban_phrase a) = length (ban_phrase b)" by simp
    then show "a = b" by (simp add: ban_phrase_def)
  qed
  then show ?thesis by (simp add: distinct_map inj_on_def)
qed

lemma filter_groups:
  "distinct (map fst items) \<Longrightarrow>
     filter (\<lambda>r. fst r = ng) (concat (map (\<lambda>(k, f). map (Pair k) (g k)) items)) =
       (if ng \<in> fst ` set items then map (Pair ng) (g ng) else [])"
proof (induction items)
  case Nil
  show ?case by simp
next
  case (Cons x items)
  obtain k f where x: "x = (k, f)" by (cases x)
  have grp: "filter (\<lambda>r. fst r = ng) (map (Pair k) (g k)) = (if k = ng then map (Pair k) (g k) else [])"
    by (induction "g k") (auto simp: filter_map comp_def)
  from Cons.prems have d: "distinct (map fst items)" and k: "k \<notin> fst ` set items"
    by (auto simp: x)
  show ?case
    using Cons.IH [OF d] k by (auto simp: x grp)
qed

lemma distinct_keys_sort_key:
  "distinct (map fst (sort_key f items)) \<longleftrightarrow> distinct (map fst items)"
  by (simp add: distinct_map)

lemma index_freq_keys_distinct: "distinct (map fst (index_freq (foldl post_ngram init_state evs)))"
  using run_index_freq [of evs] by (simp add: distinct_first_seen)

lemma index_freq_keys: "fst ` set (index_freq (foldl post_ngram init_state evs)) = fst ` set evs"
proof -
  have "set (map fst (index_freq (foldl post_ngram init_state evs))) = set (first_seen evs)"
    using run_index_freq [of evs] by simp
  then show ?thesis by (simp add: set_first_seen)
qed

lemma rows_of_ngram:
  assumes "build_index vocab alignment = Inr st"
  shows "filter (\<lambda>r. fst r = ng) (index_rows st) =
     map (Pair ng) (if length (ngram_events ng (run_events vocab alignment)) \<le> 100
                    then ngram_events ng (run_events vocab alignment) else [])"
proof -
  let ?evs = "run_events vocab alignment"
  have st: "st = foldl post_ngram init_state ?evs"
    by (rule build_index_run [OF assms])
  have d: "distinct (map fst (sort_key (\<lambda>(ngram, freq). - int freq) (index_freq st)))"
    unfolding distinct_keys_sort_key st by (rule index_freq_keys_distinct)
  have keys: "ng \<in> fst ` set (sort_key (\<lambda>(ngram, freq). - int freq) (index_freq st))
      \<longleftrightarrow> ngram_events ng ?evs \<noteq> []"
    by (simp add: st index_freq_keys ngram_events_empty)
  show ?thesis
    unfolding index_rows_def filter_groups [OF d] keys
    by (auto simp: postings_of_run [OF assms])
qed

text \<open>
  C1 (as the code has it). The rows written for an n-gram are all the postings generated
  for it, in the order of generation, when at most 100 were generated in the whole run;
  when more than 100 were generated (101 phrases with one attempt each, for example) no
  row at all is written for it: the attempt that exceeds 100 deletes the postings
  accumulated so far and later attempts are skipped.
\<close>

theorem rows_of_banned_ngram:
  assumes "build_index vocab alignment = Inr st"
  shows "map snd (filter (\<lambda>r. fst r = ng) (index_rows st)) =
     (if length (ngram_events ng (run_events vocab alignment)) \<le> 100
      then ngram_events ng (run_events vocab alignment) else [])"
  unfolding rows_of_ngram [OF assms] by (simp add: comp_def)

theorem rows_of_banned_ngram_witness:
  "build_index ban_vocab ban_alignment =
     Inr \<lparr>index_freq = [(''z'', 101)], ngram_to_phrase_and_position = [], ban_ngram = {''z''}\<rparr> \<and>
   length (ngram_events ''z'' (run_events ban_vocab ban_alignment)) = 101 \<and>
   map snd (filter (\<lambda>r. fst r = ''z'')
     (index_rows \<lparr>index_freq = [(''z'', 101)], ngram_to_phrase_and_position = [], ban_ngram = {''z''}\<rparr>)) = []"
proof -
  have b: "build_index ban_vocab ban_alignment =
     Inr \<lparr>index_freq = [(''z'', 101)], ngram_to_phrase_and_position = [], ban_ngram = {''z''}\<rparr>"
    by (simp add: ban_build_index ban_final_state)
  have n: "length (ngram_events ''z'' (run_events ban_vocab ban_alignment)) = 101"
    by (simp add: ban_ngram_events del: upt.simps)
  from rows_of_banned_ngram [OF b, of "''z''"] n b show ?thesis
    by (simp del: upt.simps)
qed

theorem hundred_postings_counterexample:
  "distinct (map ban_phrase [0 ..< 101]) \<and>
   map fst (run_events ban_vocab ban_alignment) = replicate 101 ''z'' \<and>
   map (fst \<circ> snd) (run_events ban_vocab ban_alignment) = map ban_phrase [0 ..< 101] \<and>
   build_index ban_vocab ban_alignment =
     Inr \<lparr>index_freq = [(''z'', 101)], ngram_to_phrase_and_position = [], ban_ngram = {''z''}\<rparr> \<and>
   index_rows \<lparr>index_freq = [(''z'', 101)], ngram_to_phrase_and_position = [], ban_ngram = {''z''}\<rparr> = []"
proof (intro conjI)
  show "distinct (map ban_phrase [0 ..< 101])"
    unfolding ban_phrases_distinct by simp
  show "map fst (run_events ban_vocab ban_alignment) = replicate 101 ''z''"
    unfolding ban_alignment_def ban_run_events
    by (simp add: comp_def map_replicate_const del: upt.simps)
  show "map (fst \<circ> snd) (run_events ban_vocab ban_alignment) = map ban_phrase [0 ..< 101]"
    unfolding ban_alignment_def ban_run_events by (simp add: comp_def del: upt.simps)
  show "build_index ban_vocab ban_alignment =
     Inr \<lparr>index_freq = [(''z'', 101)], ngram_to_phrase_and_position = [], ban_ngram = {''z''}\<rparr>"
    by (simp add: ban_build_index ban_final_state)
  show "index_rows \<lparr>index_freq = [(''z'', 101)], ngram_to_phrase_and_position = [], ban_ngram = {''z''}\<rparr> = []"
    by (simp add: index_rows_def dict_get_def)
qed

section \<open>The end-to-end scenario\<close>

lemma ln_2_bounds: "68 / 100 < ln (2 :: real)" "ln (2 :: real) < 71 / 100"
proof -
  have "(2 :: real) < (3271 / 3200) ^ 32"
    by (simp add: power_divide)
  then have "(2 :: real) < (1 + (71 / 100) / real 32) ^ 32"
    by simp
  also have "\<dots> \<le> exp (71 / 100)"
    by (rule exp_ge_one_plus_x_over_n_power_n) simp_all
  finally have "ln (2 :: real) < ln (exp (71 / 100))"
    by (subst ln_less_cancel_iff) simp_all
  then show "ln (2 :: real) < 71 / 100" by simp
  have "(1 / 2 :: real) < (783 / 800) ^ 32"
    by (simp add: power_divide)
  then have "(1 / 2 :: real) < (1 - (68 / 100) / real 32) ^ 32"
    by simp
  also have "\<dots> \<le> exp (- (68 / 100))"
    by (rule exp_ge_one_minus_x_over_n_power_n) simp_all
  finally have "ln (1 / 2 :: real) < ln (exp (- (68 / 100)))"
    by (subst ln_less_cancel_iff) simp_all
  then show "68 / 100 < ln (2 :: real)" by (simp add: ln_div)
qed

lemma ln_half_approx: "- (71 / 100) < ln (1 / 2 :: real)" "ln (1 / 2 :: real) < - (68 / 100)"
  using ln_2_bounds by (simp_all add: ln_div)

lemma scenario_state:
  "build_index scenario_vocab [scenario_line] =
     Inr \<lparr>index_freq = [(''x'', 1), (''x y'', 1), (''y'', 1)],
          ngram_to_phrase_and_position =
            [(''x'', [(''a b c'', 0, 1, ln (1 / 2))]),
             (''x y'', [(''a b c'', 0, 2, ln (1 / 2) + ln (1 / 2))]),
             (''y'', [(''a b c'', 1, 1, ln (1 / 2))])],
          ban_ngram = {}\<rparr>"
proof -
  have "build_index scenario_vocab [scenario_line] =
      Inr (foldl post_ngram init_state (run_events scenario_vocab [scenario_line]))"
    by (rule build_index_events) (auto simp: scenario_process_line scenario_expand)
  then show ?thesis
    by (simp add: scenario_events post_ngram_def init_state_def dict_get_def)
qed

lemma scenario_index_rows:
  "index_rows \<lparr>index_freq = [(''x'', 1), (''x y'', 1), (''y'', 1)],
          ngram_to_phrase_and_position =
            [(''x'', [(''a b c'', 0, 1, lx)]), (''x y'', [(''a b c'', 0, 2, lxy)]),
             (''y'', [(''a b c'', 1, 1, ly)])],
          ban_ngram = {}\<rparr> =
     [(''x'', ''a b c'', 0, 1, lx), (''x y'', ''a b c'', 0, 2, lxy), (''y'', ''a b c'', 1, 1, ly)]"
  by (simp add: index_rows_def dict_get_def)

lemma adjacent_expand:
  "expand_phrase adjacent_vocab ''a b c'' = Inr [[(''x '', ln (1 / 2))], [], [(''y '', ln (1 / 2))]]"
  using ln_half_bounds by (simp add: adjacent_vocab_def expander_eval string_eval)

lemma scenario_windows:
  "split_on CHR '' '' ''a b c'' = [''a'', ''b'', ''c'']"
  "join '' '' (slice 0 2 [''a'', ''b'', ''c'']) = ''a b''"
  "join '' '' (slice 1 3 [''a'', ''b'', ''c'']) = ''b c''"
  "join '' '' (slice 2 3 [''a'', ''b'', ''c'']) = ''c''"
  by (simp_all add: slice_def Let_def)

text \<open>
  C6 (as the code has it). With the table \<open>a b \<rightarrow> x\<close> and \<open>b c \<rightarrow> y\<close>, both of probability
  0.5, the phrase \<open>a b c\<close> yields at start position 0 the rendering \<open>x\<close> with score \<open>ln 0.5\<close>
  and its extension \<open>x y\<close> with score \<open>2 ln 0.5\<close>. The tokens a rendering has consumed are
  counted by its spaces: \<open>x\<close> is booked as one token, so that it ends at token 1, where
  the window \<open>b c\<close> begins, and \<open>x y\<close> as two. \<open>ln 0.5\<close> lies between -0.71 and -0.68, so
  both scores are above -4, and both renderings are indexed and written with the phrase
  \<open>a b c\<close>, start position 0 and span lengths 1 and 2.
\<close>

theorem scenario_a_b_c:
  "expand_phrase scenario_vocab ''a b c'' =
     Inr [[(''x '', ln (1 / 2)), (''x y '', 2 * ln (1 / 2))], [(''y '', ln (1 / 2))], []] \<and>
   split_on CHR '' '' ''a b c'' = [''a'', ''b'', ''c''] \<and>
   join '' '' (slice 0 2 [''a'', ''b'', ''c'']) = ''a b'' \<and>
   join '' '' (slice 1 3 [''a'', ''b'', ''c'']) = ''b c'' \<and>
   count_sp ''x '' = 1 \<and> 0 + count_sp ''x '' = (1 :: nat) \<and> count_sp ''x y '' = 2 \<and>
   - (71 / 100) < ln (1 / 2 :: real) \<and> ln (1 / 2 :: real) < - (68 / 100) \<and>
   - 4 < ln (1 / 2 :: real) \<and> - 4 < 2 * ln (1 / 2 :: real) \<and>
   build_index scenario_vocab [scenario_line] =
     Inr \<lparr>index_freq = [(''x'', 1), (''x y'', 1), (''y'', 1)],
          ngram_to_phrase_and_position =
            [(''x'', [(''a b c'', 0, 1, ln (1 / 2))]),
             (''x y'', [(''a b c'', 0, 2, 2 * ln (1 / 2))]),
             (''y'', [(''a b c'', 1, 1, ln (1 / 2))])],
          ban_ngram = {}\<rparr> \<and>
   index_rows \<lparr>index_freq = [(''x'', 1), (''x y'', 1), (''y'', 1)],
          ngram_to_phrase_and_position =
            [(''x'', [(''a b c'', 0, 1, ln (1 / 2))]),
             (''x y'', [(''a b c'', 0, 2, 2 * ln (1 / 2))]),
             (''y'', [(''a b c'', 1, 1, ln (1 / 2))])],
          ban_ngram = {}\<rparr> =
     [(''x'', ''a b c'', 0, 1, ln (1 / 2)), (''x y'', ''a b c'', 0, 2, 2 * ln (1 / 2)),
      (''y'', ''a b c'', 1, 1, ln (1 / 2))]"
proof -
  have two: "ln (1 / 2 :: real) + ln (1 / 2) = 2 * ln (1 / 2)"
    by simp
  note e = scenario_expand [unfolded two] and s = scenario_state [unfolded two]
  have lo: "- 4 < ln (1 / 2 :: real)" and lo2: "- 4 < 2 * ln (1 / 2 :: real)"
    using ln_half_approx by linarith+
  have c: "count_sp ''x '' = 1" "0 + count_sp ''x '' = (1 :: nat)" "count_sp ''x y '' = 2"
    by (simp_all add: count_sp_def)
  show ?thesis
    by (intro conjI) (rule e s ln_half_approx lo lo2 scenario_index_rows scenario_windows c)+
qed

theorem token_span_counterexample:
  "run_events scenario_vocab [scenario_line] =
     [(''x'', ''a b c'', 0, 1, ln (1 / 2)), (''x y'', ''a b c'', 0, 2, ln (1 / 2) + ln (1 / 2)),
      (''y'', ''a b c'', 1, 1, ln (1 / 2))] \<and>
   (''x'', ''a b c'', 0, 2, ln (1 / 2)) \<notin> set (run_events scenario_vocab [scenario_line]) \<and>
   (''x y'', ''a b c'', 0, 3, ln (1 / 2) + ln (1 / 2)) \<notin> set (run_events scenario_vocab [scenario_line]) \<and>
   join '' '' (slice 0 2 [''a'', ''b'', ''c'']) = ''a b'' \<and>
   join '' '' (slice 2 3 [''a'', ''b'', ''c'']) = ''c'' \<and>
   expand_phrase adjacent_vocab ''a b c'' = Inr [[(''x '', ln (1 / 2))], [], [(''y '', ln (1 / 2))]]"
proof -
  have n: "(''x'', ''a b c'', 0, 2, ln (1 / 2)) \<notin> set (run_events scenario_vocab [scenario_line])"
    "(''x y'', ''a b c'', 0, 3, ln (1 / 2) + ln (1 / 2)) \<notin> set (run_events scenario_vocab [scenario_line])"
    unfolding scenario_events by simp_all
  show ?thesis
    by (intro conjI) (rule scenario_events n scenario_windows adjacent_expand)+
qed

section \<open>The layout of the written index\<close>

lemma insort_key_map:
  "insort_key f (h x) (map h ys) = map h (insort_key (\<lambda>y. f (h y)) x ys)"
  by (induction ys) simp_all

lemma sort_key_map: "sort_key f (map h xs) = map h (sort_key (\<lambda>y. f (h y)) xs)"
  by (induction xs) (simp_all add: insort_key_map)

lemma dict_get_distinct:
  "distinct (map fst d) \<Longrightarrow> (k, v) \<in> set d \<Longrightarrow> dict_get dflt d k = v"
  by (simp add: dict_get_def)

lemma dict_items:
  assumes "distinct (map fst d)"
  shows "d = map (\<lambda>k. (k, dict_get dflt d k)) (map fst d)"
proof -
  have "map (\<lambda>x. (fst x, dict_get dflt d (fst x))) d = d"
  proof (rule map_idI)
    fix x
    assume "x \<in> set d"
    then have "(fst x, snd x) \<in> set d" by simp
    from dict_get_distinct [OF assms this] show "(fst x, dict_get dflt d (fst x)) = x"
      by simp
  qed
  then show ?thesis by (simp add: comp_def)
qed

lemma index_freq_items:
  "index_freq (foldl post_ngram init_state evs) =
     map (\<lambda>ng. (ng, length (ngram_events ng evs))) (first_seen evs)"
proof -
  let ?d = "index_freq (foldl post_ngram init_state evs)"
  have "?d = map (\<lambda>k. (k, dict_get 0 ?d k)) (map fst ?d)"
    by (rule dict_items) (rule index_freq_keys_distinct)
  then show ?thesis
    using run_index_freq [of evs] by simp
qed

lemma index_rows_of_run:
  "index_rows (foldl post_ngram init_state evs) =
     concat (map (\<lambda>ng. map (Pair ng)
                    (if length (ngram_events ng evs) \<le> 100 then ngram_events ng evs else []))
               (sort_key (\<lambda>ng. - int (length (ngram_events ng evs))) (first_seen evs)))"
  unfolding index_rows_def index_freq_items sort_key_map
  by (simp add: comp_def postings_of_events)

text \<open>
  C8. The written file has one line per surviving posting. The lines are grouped by
  n-gram, every generated n-gram has one group, the groups come in the order of
  descending popularity counter, n-grams of equal popularity in the order in which they
  were first generated (the sort is stable), a group lists the surviving postings of its
  n-gram in the order of their generation, and a line is the n-gram, the phrase, the
  start position, the span length and the log-probability, separated by tabs.
\<close>

theorem written_index_layout:
  assumes "build_index vocab alignment = Inr st"
  shows "\<exists>order.
     write_index str_float st =
       concat (map (\<lambda>ng. map (\<lambda>(phrase, b, len, lp).
                       ng @ [tab] @ phrase @ [tab] @ str_nat b @ [tab] @ str_nat len @ [tab]
                         @ str_float lp @ [newline])
                     (if length (ngram_events ng (run_events vocab alignment)) \<le> 100
                      then ngram_events ng (run_events vocab alignment) else []))
                 order) \<and>
     distinct order \<and> set order = fst ` set (run_events vocab alignment) \<and>
     sorted_wrt (\<lambda>a c. length (ngram_events c (run_events vocab alignment))
                       \<le> length (ngram_events a (run_events vocab alignment))) order \<and>
     (\<forall>n. filter (\<lambda>ng. length (ngram_events ng (run_events vocab alignment)) = n) order =
          filter (\<lambda>ng. length (ngram_events ng (run_events vocab alignment)) = n)
            (first_seen (run_events vocab alignment)))"
proof -
  define evs where "evs = run_events vocab alignment"
  define pop where "pop ng = length (ngram_events ng evs)" for ng
  define order where "order = sort_key (\<lambda>ng. - int (pop ng)) (first_seen evs)"
  have st: "st = foldl post_ngram init_state evs"
    unfolding evs_def by (rule build_index_run [OF assms])
  have rows: "index_rows st =
      concat (map (\<lambda>ng. map (Pair ng) (if pop ng \<le> 100 then ngram_events ng evs else [])) order)"
    unfolding st index_rows_of_run order_def pop_def ..
  have out: "write_index str_float st =
       concat (map (\<lambda>ng. map (\<lambda>(phrase, b, len, lp).
                       ng @ [tab] @ phrase @ [tab] @ str_nat b @ [tab] @ str_nat len @ [tab]
                         @ str_float lp @ [newline])
                     (if pop ng \<le> 100 then ngram_events ng evs else [])) order)"
    unfolding write_index_def rows map_concat
    by (simp add: comp_def format_posting_def case_prod_unfold)
  have d: "distinct order"
    unfolding order_def by (simp add: distinct_first_seen)
  have s: "set order = fst ` set evs"
    unfolding order_def by (simp add: set_first_seen)
  have "sorted (map (\<lambda>ng. - int (pop ng)) order)"
    unfolding order_def by (rule sorted_sort_key)
  then have so: "sorted_wrt (\<lambda>a c. pop c \<le> pop a) order"
    by (simp add: sorted_map)
  have stable: "filter (\<lambda>ng. pop ng = n) order = filter (\<lambda>ng. pop ng = n) (first_seen evs)" for n
  proof -
    have "filter (\<lambda>ng. - int (pop ng) = - int n) order
        = filter (\<lambda>ng. - int (pop ng) = - int n) (first_seen evs)"
      unfolding order_def by (rule sort_key_stable)
    then show ?thesis by simp
  qed
  from out d s so stable show ?thesis
    unfolding pop_def evs_def by blast
qed

theorem written_index_layout_witness:
  "build_index scenario_vocab [scenario_line] =
     Inr \<lparr>index_freq = [(''x'', 1), (''x y'', 1), (''y'', 1)],
          ngram_to_phrase_and_position =
            [(''x'', [(''a b c'', 0, 1, ln (1 / 2))]),
             (''x y'', [(''a b c'', 0, 2, ln (1 / 2) + ln (1 / 2))]),
             (''y'', [(''a b c'', 1, 1, ln (1 / 2))])],
          ban_ngram = {}\<rparr> \<and>
   (\<exists>order.
     write_index str_float_stub
        \<lparr>index_freq = [(''x'', 1), (''x y'', 1), (''y'', 1)],
          ngram_to_phrase_and_position =
            [(''x'', [(''a b c'', 0, 1, ln (1 / 2))]),
             (''x y'', [(''a b c'', 0, 2, ln (1 / 2) + ln (1 / 2))]),
             (''y'', [(''a b c'', 1, 1, ln (1 / 2))])],
          ban_ngram = {}\<rparr> =
       concat (map (\<lambda>ng. map (\<lambda>(phrase, b, len, lp).
                       ng @ [tab] @ phrase @ [tab] @ str_nat b @ [tab] @ str_nat len @ [tab]
                         @ str_float_stub lp @ [newline])
                     (if length (ngram_events ng (run_events scenario_vocab [scenario_line])) \<le> 100
                      then ngram_events ng (run_events scenario_vocab [scenario_line]) else []))
                 order) \<and>
     distinct order \<and> set order = fst ` set (run_events scenario_vocab [scenario_line]) \<and>
     sorted_wrt (\<lambda>a c. length (ngram_events c (run_events scenario_vocab [scenario_line]))
                       \<le> length (ngram_events a (run_events scenario_vocab [scenario_line]))) order \<and>
     (\<forall>n. filter (\<lambda>ng. length (ngram_events ng (run_events scenario_vocab [scenario_line])) = n) order =
          filter (\<lambda>ng. length (ngram_events ng (run_events scenario_vocab [scenario_line])) = n)
            (first_seen (run_events scenario_vocab [scenario_line]))))"
  using written_index_layout [OF scenario_state, of str_float_stub] scenario_state
  by (rule_tac conjI)


section \<open>Length and start position of the renderings\<close>

lemma concat_map_mem: "e \<in> set es \<Longrightarrow> x \<in> set (g e) \<Longrightarrow> x \<in> set (concat (map g es))"
  by auto

lemma fresh_starts_mem:
  assumes w: "(b, e) \<in> set (windows (length inputs))"
    and r: "(rep0, p) \<in> set (dict_get [] vocab (join '' '' (slice b e inputs)))"
  shows "replace ''<DELETE>'' ''='' rep0 @ '' '' \<in> set (fresh_starts vocab inputs b)"
proof -
  from w have "b < e \<and> e \<le> length inputs \<and> e \<le> b + 4"
    unfolding windows_set by blast
  then have "b + 1 \<le> e \<and> e < min (length inputs + 1) (b + 5)"
    by arith
  then have e: "e \<in> set [b + 1 ..< min (length inputs + 1) (b + 5)]"
    unfolding set_upt atLeastLessThan_iff .
  from r have m: "replace ''<DELETE>'' ''='' rep0 @ '' '' \<in>
      set (map (\<lambda>(rep0, p). replace ''<DELETE>'' ''='' rep0 @ '' '')
            (dict_get [] vocab (join '' '' (slice b e inputs))))"
    by force
  show ?thesis
    unfolding fresh_starts_def
    by (rule concat_map_mem
        [where g = "\<lambda>end. map (\<lambda>(rep0, p). replace ''<DELETE>'' ''='' rep0 @ '' '')
                          (dict_get [] vocab (join '' '' (slice b end inputs)))", OF e m])
qed

lemma covering_fresh_or_short:
  assumes "covering vocab inputs b ngram lp"
  shows "ngram \<in> set (fresh_starts vocab inputs b) \<or> length ngram \<le> 11"
  using assms
proof (cases rule: covering.cases)
  case (fresh e rep0 p rep)
  with fresh_starts_mem [of b e inputs rep0 p vocab] show ?thesis by simp
next
  case (extend prev lp_prev "begin" e rep0 p rep)
  then show ?thesis by simp
qed

lemma covering_prefix:
  assumes "covering vocab inputs b ngram lp"
  shows "\<exists>f \<in> set (fresh_starts vocab inputs b). take (length f) ngram = f"
  using assms
proof (induction rule: covering.induct)
  case (fresh b e rep0 p rep)
  from fresh_starts_mem [OF fresh(1,2)] fresh(4)
  have "rep @ '' '' \<in> set (fresh_starts vocab inputs b)" by simp
  moreover have "take (length (rep @ '' '')) (rep @ '' '') = rep @ '' ''" by (rule take_all) simp
  ultimately show ?case by blast
next
  case (extend b ngram lp_prev "begin" e rep0 p rep)
  then obtain f where f: "f \<in> set (fresh_starts vocab inputs b)" and t: "take (length f) ngram = f"
    by blast
  have "length (take (length f) ngram) \<le> length ngram" by simp
  with t have "length f \<le> length ngram" by simp
  with t have "take (length f) (ngram @ rep @ '' '') = f" by simp
  with f show ?case by blast
qed

lemma covering_count: "covering vocab inputs b ngram lp \<Longrightarrow> 1 \<le> count_sp ngram"
  by (erule covering.cases) (simp_all add: count_sp_def)

lemma long_expand:
  "expand_phrase long_vocab ''a b c'' =
     Inr [[(''abcde '', 0), (''abcde abcd '', 0)], [(''abcd '', 0)], [(''abcdefghijkl '', 0)]]"
  by (simp add: long_vocab_def expander_eval string_eval)

lemma long_process_line: "process_line long_line = Some (''a b c'', ''a b c'', ''a b c'')"
  by (simp add: long_line_def process_line_def string_eval)

lemma long_events:
  "run_events long_vocab [long_line] =
     [(''abcde'', ''a b c'', 0, 1, 0), (''abcde abcd'', ''a b c'', 0, 2, 0),
      (''abcd'', ''a b c'', 1, 1, 0), (''abcdefghijkl'', ''a b c'', 2, 1, 0)]"
  by (simp add: run_events_def line_events_def long_process_line long_expand phrase_events_def
      string_eval upt_rec)

text \<open>
  C3 (as the code has it). A rendering stored by the expander is either a fresh start,
  the replacement of a window beginning at its index followed by a space, whose length
  is not tested, or an extension, which has at most 11 characters: the test bounds the
  length before the trailing space is added by 10.
\<close>

theorem rendering_length_cap:
  assumes "expand_phrase vocab phrase = Inr index_keys" and "b < length index_keys"
    and "(ngram, lp) \<in> set (index_keys ! b)"
  shows "ngram \<in> set (fresh_starts vocab (split_on CHR '' '' phrase) b) \<or> length ngram \<le> 11"
  by (rule covering_fresh_or_short [OF expand_phrase_covering [OF assms]])

theorem rendering_length_cap_witness:
  "expand_phrase long_vocab ''a b c'' =
     Inr [[(''abcde '', 0), (''abcde abcd '', 0)], [(''abcd '', 0)], [(''abcdefghijkl '', 0)]] \<and>
   (''abcde abcd '' \<in> set (fresh_starts long_vocab (split_on CHR '' '' ''a b c'') 0) \<or>
    length ''abcde abcd '' \<le> 11) \<and>
   (''abcdefghijkl '' \<in> set (fresh_starts long_vocab (split_on CHR '' '' ''a b c'') 2) \<or>
    length ''abcdefghijkl '' \<le> 11)"
proof -
  let ?ik = "[[(''abcde '', 0 :: real), (''abcde abcd '', 0)], [(''abcd '', 0)], [(''abcdefghijkl '', 0)]]"
  have a: "(''abcde abcd '', 0) \<in> set (?ik ! 0)" and c: "(''abcdefghijkl '', 0) \<in> set (?ik ! 2)"
    by simp_all
  have l0: "0 < length ?ik" and l2: "2 < length ?ik" by simp_all
  from rendering_length_cap [OF long_expand l0 a] rendering_length_cap [OF long_expand l2 c] long_expand
  show ?thesis by blast
qed

theorem ten_character_cap_counterexample:
  "expand_phrase long_vocab ''a b c'' =
     Inr [[(''abcde '', 0), (''abcde abcd '', 0)], [(''abcd '', 0)], [(''abcdefghijkl '', 0)]] \<and>
   length ''abcde abcd '' = 11 \<and> length ''abcdefghijkl '' = 13 \<and>
   run_events long_vocab [long_line] =
     [(''abcde'', ''a b c'', 0, 1, 0), (''abcde abcd'', ''a b c'', 0, 2, 0),
      (''abcd'', ''a b c'', 1, 1, 0), (''abcdefghijkl'', ''a b c'', 2, 1, 0)]"
  by (simp add: long_expand long_events)

lemma grow_other: "b' \<noteq> b \<Longrightarrow> grow begin rep lp index_keys b ! b' = index_keys ! b'"
  by (simp add: grow_def)

lemma grow_mem:
  assumes "(k, v) \<in> set (grow begin rep lp index_keys b ! b)" and "b < length index_keys"
  shows "(k, v) \<in> set (index_keys ! b) \<or>
     (\<exists>ngram lp_prev. (ngram, lp_prev) \<in> set (index_keys ! b) \<and> b + count_sp ngram = begin \<and>
        k = ngram @ rep @ '' '' \<and> v = lp_prev + lp)"
proof -
  from assms have "(k, v) \<in> set (dict_union (index_keys ! b) (new_ngrams b begin rep lp (index_keys ! b)))"
    by (simp add: grow_def)
  with set_dict_union have "(k, v) \<in> set (index_keys ! b) \<or>
      (k, v) \<in> set (new_ngrams b begin rep lp (index_keys ! b))"
    by fastforce
  then show ?thesis
    using new_ngrams_sound [of k v b "begin" rep lp "index_keys ! b"] by blast
qed

text \<open>
  C2 (as the code has it). The covering map is indexed by the token position at which a
  covering starts: a rendering stored at index \<open>b\<close> begins with the replacement of a
  window that begins at token \<open>b\<close>, and it contains at least one space, so it has
  consumed at least one token. An extension leaves every other index unchanged and adds
  to index \<open>b\<close> only renderings grown from one stored at \<open>b\<close> whose end, \<open>b\<close> plus its
  number of spaces, is the begin of the new window.
\<close>

theorem coverings_indexed_by_start:
  assumes "expand_phrase vocab phrase = Inr index_keys" and "b < length index_keys"
    and "(ngram, lp) \<in> set (index_keys ! b)"
  shows "(\<exists>f \<in> set (fresh_starts vocab (split_on CHR '' '' phrase) b). take (length f) ngram = f) \<and>
     1 \<le> count_sp ngram \<and>
     (\<forall>b' k v. b' < length index_keys \<longrightarrow> (k, v) \<in> set (grow begin rep lp' index_keys b' ! b') \<longrightarrow>
        (k, v) \<in> set (index_keys ! b') \<or>
        (\<exists>prev lp_prev. (prev, lp_prev) \<in> set (index_keys ! b') \<and> b' + count_sp prev = begin \<and>
           k = prev @ rep @ '' '' \<and> v = lp_prev + lp')) \<and>
     (\<forall>b' b''. b'' \<noteq> b' \<longrightarrow> grow begin rep lp' index_keys b' ! b'' = index_keys ! b'')"
proof (intro conjI allI impI)
  note c = expand_phrase_covering [OF assms]
  show "\<exists>f \<in> set (fresh_starts vocab (split_on CHR '' '' phrase) b). take (length f) ngram = f"
    by (rule covering_prefix [OF c])
  show "1 \<le> count_sp ngram"
    by (rule covering_count [OF c])
next
  fix b' k v
  assume "b' < length index_keys" and "(k, v) \<in> set (grow begin rep lp' index_keys b' ! b')"
  then show "(k, v) \<in> set (index_keys ! b') \<or>
        (\<exists>prev lp_prev. (prev, lp_prev) \<in> set (index_keys ! b') \<and> b' + count_sp prev = begin \<and>
           k = prev @ rep @ '' '' \<and> v = lp_prev + lp')"
    by (rule grow_mem [rotated])
next
  fix b' b'' :: nat
  assume "b'' \<noteq> b'"
  then show "grow begin rep lp' index_keys b' ! b'' = index_keys ! b''"
    by (rule grow_other)
qed

theorem coverings_indexed_by_start_witness:
  "expand_phrase scenario_vocab ''a b c'' =
     Inr [[(''x '', ln (1 / 2)), (''x y '', ln (1 / 2) + ln (1 / 2))], [(''y '', ln (1 / 2))], []] \<and>
   (\<exists>f \<in> set (fresh_starts scenario_vocab (split_on CHR '' '' ''a b c'') 0).
      take (length f) ''x y '' = f) \<and>
   1 \<le> count_sp ''x y ''"
proof -
  let ?ik = "[[(''x '', ln (1 / 2 :: real)), (''x y '', ln (1 / 2) + ln (1 / 2))], [(''y '', ln (1 / 2))], []]"
  have m: "(''x y '', ln (1 / 2 :: real) + ln (1 / 2)) \<in> set (?ik ! 0)" and l: "0 < length ?ik"
    by simp_all
  from coverings_indexed_by_start [OF scenario_expand l m] scenario_expand
  show ?thesis by blast
qed

theorem indexed_by_end_counterexample:
  "expand_phrase single_vocab ''a'' = Inr [[(''x '', 0)]] \<and> count_sp ''x '' = 1 \<and>
   length (split_on CHR '' '' ''a'') = 1"
  by (simp add: single_vocab_def expander_eval string_eval)

section \<open>One score for each rendering\<close>

lemma keys_distinct_update:
  assumes "keys_distinct index_keys" and "distinct (map fst d)"
  shows "keys_distinct (index_keys[b := d])"
proof -
  have "set (index_keys[b := d]) \<subseteq> insert d (set index_keys)"
    by (rule set_update_subset_insert)
  with assms show ?thesis
    unfolding keys_distinct_def list_all_iff by blast
qed

lemma keys_distinct_nth:
  "keys_distinct index_keys \<Longrightarrow> b < length index_keys \<Longrightarrow> distinct (map fst (index_keys ! b))"
  by (simp add: keys_distinct_def list_all_length)

lemma grow_distinct:
  assumes "keys_distinct index_keys"
  shows "keys_distinct (grow begin rep lp index_keys b)"
proof (cases "b < length index_keys")
  case True
  from keys_distinct_nth [OF assms True] have "distinct (map fst
      (dict_union (index_keys ! b) (new_ngrams b begin rep lp (index_keys ! b))))"
    by (rule distinct_dict_union)
  with assms show ?thesis
    unfolding grow_def by (rule keys_distinct_update)
next
  case False
  with assms show ?thesis by (simp add: grow_def list_update_beyond)
qed

lemma foldl_grow_distinct:
  "keys_distinct index_keys \<Longrightarrow> keys_distinct (foldl (grow begin rep lp) index_keys bs)"
  by (induction bs arbitrary: index_keys) (simp_all add: grow_distinct)

lemma length_grow: "length (grow begin rep lp index_keys b) = length index_keys"
  by (simp add: grow_def)

lemma length_foldl_grow: "length (foldl (grow begin rep lp) index_keys bs) = length index_keys"
  by (induction bs arbitrary: index_keys) (simp_all add: length_grow)

lemma expand_rep_cases:
  assumes "expand_rep begin end (rep0, p) index_keys = Inr index_keys'"
  obtains "strip (replace ''<DELETE>'' ''='' rep0) = []" and "index_keys' = index_keys"
  | "strip (replace ''<DELETE>'' ''='' rep0) \<noteq> []" and "\<not> - 4 < ln p"
    and "index_keys' = foldl (grow begin (replace ''<DELETE>'' ''='' rep0) (ln p)) index_keys [end - 5 ..< end]"
  | "strip (replace ''<DELETE>'' ''='' rep0) \<noteq> []" and "- 4 < ln p"
    and "index_keys' =
      (foldl (grow begin (replace ''<DELETE>'' ''='' rep0) (ln p)) index_keys [end - 5 ..< end])
        [begin := dict_set (replace ''<DELETE>'' ''='' rep0 @ '' '') (ln p)
           (foldl (grow begin (replace ''<DELETE>'' ''='' rep0) (ln p)) index_keys [end - 5 ..< end] ! begin)]"
  using assms by (auto simp: expand_rep_def Let_def split: if_splits)

lemma expand_rep_distinct:
  assumes "keys_distinct index_keys" and "expand_rep begin end (rep0, p) index_keys = Inr index_keys'"
  shows "keys_distinct index_keys'"
  using assms(2)
proof (cases rule: expand_rep_cases)
  case 1
  with assms(1) show ?thesis by simp
next
  case 2
  with foldl_grow_distinct [OF assms(1)] show ?thesis by simp
next
  case 3
  let ?g = "foldl (grow begin (replace ''<DELETE>'' ''='' rep0) (ln p)) index_keys [end - 5 ..< end]"
  have g: "keys_distinct ?g" by (rule foldl_grow_distinct [OF assms(1)])
  show ?thesis
  proof (cases "begin < length ?g")
    case True
    from keys_distinct_nth [OF g True]
    have "distinct (map fst (dict_set (replace ''<DELETE>'' ''='' rep0 @ '' '') (ln p) (?g ! begin)))"
      by (rule distinct_dict_set)
    with g show ?thesis unfolding 3(3) by (rule keys_distinct_update)
  next
    case False
    with g 3(3) show ?thesis by (simp add: list_update_beyond)
  qed
qed

lemma expand_window_distinct:
  assumes "keys_distinct index_keys" and "expand_window vocab inputs w index_keys = Inr index_keys'"
  shows "keys_distinct index_keys'"
proof -
  obtain b e where w: "w = (b, e)" by (cases w)
  show ?thesis
  proof (cases "map_of vocab (join '' '' (slice b e inputs))")
    case None
    with assms w show ?thesis by (simp add: expand_window_def)
  next
    case (Some reps)
    with assms(2) w have fe: "for_each (expand_rep b e) reps index_keys = Inr index_keys'"
      by (simp add: expand_window_def)
    show ?thesis
    proof (rule for_each_invariant [where P = keys_distinct, OF fe assms(1)])
      fix x t t'
      assume "keys_distinct t" and "expand_rep b e x t = Inr t'"
      then show "keys_distinct t'"
        by (cases x) (auto intro: expand_rep_distinct)
    qed
  qed
qed

lemma expand_phrase_distinct:
  assumes "expand_phrase vocab phrase = Inr index_keys"
  shows "keys_distinct index_keys"
proof -
  let ?inputs = "split_on CHR '' '' phrase"
  from assms have fe: "for_each (expand_window vocab ?inputs) (windows (length ?inputs))
      (replicate (length ?inputs) []) = Inr index_keys"
    by (simp add: expand_phrase_def Let_def)
  have init: "keys_distinct (replicate (length ?inputs) [])"
    by (simp add: keys_distinct_def list_all_iff)
  show ?thesis
    by (rule for_each_invariant [where P = keys_distinct, OF fe init]) (rule expand_window_distinct)
qed

lemma new_ngrams_distinct_aux:
  "distinct (map fst acc) \<Longrightarrow>
   distinct (map fst (foldl (\<lambda>acc (ngram, lp_prev).
              if length ngram + length rep \<le> 10 \<and> b + count_sp ngram = begin
              then (if lp_prev + lp > - 4 then dict_set (ngram @ rep @ '' '') (lp_prev + lp) acc else acc)
              else acc) acc d))"
  by (induction d arbitrary: acc) (auto simp: distinct_dict_set)

lemma new_ngrams_distinct: "distinct (map fst (new_ngrams b begin rep lp d))"
  unfolding new_ngrams_def by (rule new_ngrams_distinct_aux) simp

lemma new_ngrams_value:
  assumes "distinct (map fst d)" and "(ngram, lp_prev) \<in> set d"
    and "length ngram + length rep \<le> 10" and "b + count_sp ngram = begin" and "- 4 < lp_prev + lp"
  shows "map_of (new_ngrams b begin rep lp d) (ngram @ rep @ '' '') = Some (lp_prev + lp)"
  using assms(1,2)
proof (induction d rule: rev_induct)
  case Nil
  then show ?case by simp
next
  case (snoc x d)
  obtain ng lpp where x: "x = (ng, lpp)" by (cases x)
  from snoc.prems(1) have d: "distinct (map fst d)" and fresh: "ng \<notin> fst ` set d"
    by (auto simp: x)
  have step: "new_ngrams b begin rep lp (d @ [x]) =
      (if length ng + length rep \<le> 10 \<and> b + count_sp ng = begin
       then (if lpp + lp > - 4 then dict_set (ng @ rep @ '' '') (lpp + lp) (new_ngrams b begin rep lp d)
             else new_ngrams b begin rep lp d)
       else new_ngrams b begin rep lp d)"
    by (simp add: new_ngrams_def x)
  show ?case
  proof (cases "(ngram, lp_prev) = (ng, lpp)")
    case True
    with assms(3-5) show ?thesis
      by (simp add: step map_of_dict_set)
  next
    case False
    with snoc.prems(2) have m: "(ngram, lp_prev) \<in> set d" by (auto simp: x)
    with fresh have "ngram \<noteq> ng" by force
    with snoc.IH [OF d m] show ?thesis
      by (simp add: step map_of_dict_set)
  qed
qed

lemma grow_value:
  assumes "b < length index_keys" and "distinct (map fst (index_keys ! b))"
    and "(ngram, lp_prev) \<in> set (index_keys ! b)"
    and "length ngram + length rep \<le> 10" and "b + count_sp ngram = begin" and "- 4 < lp_prev + lp"
  shows "map_of (grow begin rep lp index_keys b ! b) (ngram @ rep @ '' '') = Some (lp_prev + lp)"
proof -
  from assms(1) have "grow begin rep lp index_keys b ! b =
      dict_union (index_keys ! b) (new_ngrams b begin rep lp (index_keys ! b))"
    by (simp add: grow_def)
  then show ?thesis
    by (simp add: map_of_dict_union [OF new_ngrams_distinct] new_ngrams_value [OF assms(2-6)])
qed

lemma expand_rep_fresh_value:
  assumes "expand_rep begin end (rep0, p) index_keys = Inr index_keys'" and "begin < length index_keys"
    and "strip (replace ''<DELETE>'' ''='' rep0) \<noteq> []" and "- 4 < ln p"
  shows "map_of (index_keys' ! begin) (replace ''<DELETE>'' ''='' rep0 @ '' '') = Some (ln p)"
  using assms(1)
proof (cases rule: expand_rep_cases)
  case 3
  with assms(2) show ?thesis
    by (simp add: length_foldl_grow map_of_dict_set)
qed (use assms(3,4) in simp_all)

lemma dup_expand: "expand_phrase dup_vocab ''a b'' = Inr [[(''x '', ln (1 / 2))], []]"
proof -
  have "ln (1 / 4 :: real) = 2 * ln (1 / 2)"
  proof -
    have "(1 / 4 :: real) = (1 / 2) ^ 2" by (simp add: power2_eq_square)
    then show ?thesis by (simp only: ln_realpow)
  qed
  then have "- 4 < ln (1 / 4 :: real)" and "- 4 < ln (1 / 2 :: real)"
    using ln_half_bounds by linarith+
  then show ?thesis
    by (simp add: dup_vocab_def expander_eval string_eval)
qed

text \<open>
  C10. At every position the covering map holds each rendering string once, with one
  log-probability. A fresh start whose rendering is already stored there replaces the
  stored score by its own (dictionary assignment), and an accepted extension stores its
  new score under its rendering whatever was stored before (in the dictionary union the
  right operand wins).
\<close>

theorem one_score_per_rendering:
  "(expand_phrase vocab phrase = Inr index_keys \<longrightarrow> b < length index_keys \<longrightarrow>
      distinct (map fst (index_keys ! b))) \<and>
   (expand_rep begin end (rep0, p) keys = Inr keys' \<longrightarrow> begin < length keys \<longrightarrow>
      strip (replace ''<DELETE>'' ''='' rep0) \<noteq> [] \<longrightarrow> - 4 < ln p \<longrightarrow>
      map_of (keys' ! begin) (replace ''<DELETE>'' ''='' rep0 @ '' '') = Some (ln p)) \<and>
   (b' < length keys \<longrightarrow> distinct (map fst (keys ! b')) \<longrightarrow> (ngram, lp_prev) \<in> set (keys ! b') \<longrightarrow>
      length ngram + length rep \<le> 10 \<longrightarrow> b' + count_sp ngram = begin \<longrightarrow> - 4 < lp_prev + lp \<longrightarrow>
      map_of (grow begin rep lp keys b' ! b') (ngram @ rep @ '' '') = Some (lp_prev + lp) \<and>
      distinct (map fst (grow begin rep lp keys b' ! b')))"
proof (intro conjI impI)
  assume "expand_phrase vocab phrase = Inr index_keys" and "b < length index_keys"
  then show "distinct (map fst (index_keys ! b))"
    by (intro keys_distinct_nth expand_phrase_distinct)
next
  assume "expand_rep begin end (rep0, p) keys = Inr keys'" and "begin < length keys"
    and "strip (replace ''<DELETE>'' ''='' rep0) \<noteq> []" and "- 4 < ln p"
  then show "map_of (keys' ! begin) (replace ''<DELETE>'' ''='' rep0 @ '' '') = Some (ln p)"
    by (rule expand_rep_fresh_value)
next
  assume a: "b' < length keys" "distinct (map fst (keys ! b'))" "(ngram, lp_prev) \<in> set (keys ! b')"
    "length ngram + length rep \<le> 10" "b' + count_sp ngram = begin" "- 4 < lp_prev + lp"
  then show "map_of (grow begin rep lp keys b' ! b') (ngram @ rep @ '' '') = Some (lp_prev + lp)"
    by (rule grow_value)
  from a(1,2) show "distinct (map fst (grow begin rep lp keys b' ! b'))"
    by (simp add: grow_def distinct_dict_union)
qed

theorem one_score_per_rendering_witness:
  "expand_phrase dup_vocab ''a b'' = Inr [[(''x '', ln (1 / 2))], []] \<and>
   distinct (map fst ([[(''x '', ln (1 / 2 :: real))], []] ! 0)) \<and>
   expand_rep 0 2 (''x'', 1 / 2) [[(''x '', ln (1 / 4))], []] = Inr [[(''x '', ln (1 / 2))], []] \<and>
   map_of ([[(''x '', ln (1 / 2 :: real))], []] ! 0) (replace ''<DELETE>'' ''='' ''x'' @ '' '') = Some (ln (1 / 2)) \<and>
   map_of (grow 1 ''y'' (ln (1 / 2)) [[(''x '', ln (1 / 2)), (''x y '', 0)], []] 0 ! 0) (''x '' @ ''y'' @ '' '')
     = Some (ln (1 / 2) + ln (1 / 2))"
proof -
  let ?ik = "[[(''x '', ln (1 / 2 :: real))], []]"
  have e: "expand_rep 0 2 (''x'', 1 / 2) [[(''x '', ln (1 / 4))], []] = Inr ?ik"
    using ln_half_bounds by (simp add: expander_eval string_eval)
  have s: "strip (replace ''<DELETE>'' ''='' ''x'') \<noteq> []"
    by (simp add: string_eval)
  have t: "- 4 < ln (1 / 2 :: real) + ln (1 / 2)" and u: "- 4 < ln (1 / 2 :: real)"
    using ln_half_bounds by linarith+
  note inst = one_score_per_rendering [of dup_vocab "''a b''" ?ik 0 0 2 "''x''" "1 / 2"
      "[[(''x '', ln (1 / 4))], []]" ?ik]
  from inst dup_expand have a: "distinct (map fst (?ik ! 0))" by simp
  from inst e s u have b: "map_of (?ik ! 0) (replace ''<DELETE>'' ''='' ''x'' @ '' '') = Some (ln (1 / 2))"
    by simp
  have c: "map_of (grow 1 ''y'' (ln (1 / 2)) [[(''x '', ln (1 / 2)), (''x y '', 0)], []] 0 ! 0) (''x '' @ ''y'' @ '' '')
     = Some (ln (1 / 2) + ln (1 / 2))"
    using one_score_per_rendering [of _ _ _ _ 1 _ _ _ "[[(''x '', ln (1 / 2)), (''x y '', 0)], []]" _ 0
        "''x ''" "ln (1 / 2)" "''y''" "ln (1 / 2)"] t
    by (simp add: count_sp_def)
  from dup_expand a e b c show ?thesis by blast
qed

section \<open>Loading the replacement table\<close>

lemma length_split_on: "length (split_on sep s) = count_list s sep + 1"
  by (induction s) (auto simp: Let_def)

lemma split_on_nonempty: "split_on sep s \<noteq> []"
  using length_split_on [of sep s] by auto

lemma split_on_prepend:
  "sep \<notin> set a \<Longrightarrow> split_on sep (a @ s) = (a @ hd (split_on sep s)) # tl (split_on sep s)"
proof (induction a)
  case Nil
  show ?case using split_on_nonempty [of sep s] by simp
next
  case (Cons c a)
  then show ?case by (auto simp: Let_def)
qed

lemma split_on_append:
  "sep \<notin> set b \<Longrightarrow> split_on sep (s @ b) = butlast (split_on sep s) @ [last (split_on sep s) @ b]"
proof (induction s)
  case Nil
  then show ?case by (simp add: split_on_none)
next
  case (Cons c s)
  let ?r = "split_on sep s"
  have r: "?r \<noteq> []" by (rule split_on_nonempty)
  have ih: "split_on sep (s @ b) = butlast ?r @ [last ?r @ b]"
    by (rule Cons.IH [OF Cons.prems])
  show ?case
  proof (cases "tl ?r = []")
    case True
    with r have "?r = [hd ?r]" by (cases ?r) auto
    then have one: "butlast ?r = []" "last ?r = hd ?r"
      by (metis butlast.simps(2) list.sel(1) last.simps)+
    show ?thesis
      using True r by (simp add: Let_def ih one)
  next
    case False
    with r obtain x y ys where xs: "?r = x # y # ys"
      by (cases ?r; cases "tl ?r") auto
    show ?thesis
      by (simp add: Let_def ih xs)
  qed
qed

lemma strip_decomposition:
  "\<exists>pre post. s = pre @ strip s @ post \<and> list_all isspace pre \<and>
     (strip s \<noteq> [] \<longrightarrow> \<not> isspace (hd (strip s)))"
proof -
  let ?m = "dropWhile isspace s"
  let ?pre = "takeWhile isspace s"
  let ?post = "rev (takeWhile isspace (rev ?m))"
  have "rev (rev ?m) = rev (takeWhile isspace (rev ?m) @ dropWhile isspace (rev ?m))"
    by (simp only: takeWhile_dropWhile_id)
  then have m: "?m = strip s @ ?post"
    by (simp only: rev_rev_ident rev_append strip_def)
  have s: "s = ?pre @ strip s @ ?post"
    using m takeWhile_dropWhile_id [of isspace s] by simp
  have p: "list_all isspace ?pre"
    by (simp add: list_all_iff) (meson set_takeWhileD)
  have h: "\<not> isspace (hd (strip s))" if "strip s \<noteq> []"
  proof -
    from that m have "?m \<noteq> []" by (metis append_is_Nil_conv)
    then have "\<not> isspace (hd ?m)" by (rule hd_dropWhile)
    moreover from that m have "hd ?m = hd (strip s)" by (metis hd_append2)
    ultimately show ?thesis by metis
  qed
  from s p h show ?thesis by blast
qed

lemma hd_split_on: "hd (split_on sep s) \<noteq> [] \<Longrightarrow> hd (hd (split_on sep s)) = hd s \<and> s \<noteq> []"
  by (cases s) (auto simp: Let_def)

lemma row_fields:
  assumes raw: "split_on tab line = [f0, f1, f2, f3, f4]"
    and parts: "split_on tab (strip line) = [g0, g1, g2, g3, g4]"
  shows "\<exists>pre post. f0 = pre @ g0 \<and> f1 = g1 \<and> f2 = g2 \<and> f3 = g3 \<and> f4 = g4 @ post \<and>
     list_all isspace pre \<and> (g0 \<noteq> [] \<longrightarrow> \<not> isspace (hd g0))"
proof -
  obtain pre post where line: "line = pre @ strip line @ post" and sp: "list_all isspace pre"
    and h: "strip line \<noteq> [] \<Longrightarrow> \<not> isspace (hd (strip line))"
    using strip_decomposition [of line] by blast
  have "count_list line tab = 4"
    using length_split_on [of tab line] raw by simp
  moreover have "count_list (strip line) tab = 4"
    using length_split_on [of tab "strip line"] parts by simp
  moreover have "count_list line tab = count_list pre tab + count_list (strip line) tab + count_list post tab"
    by (subst line) simp
  ultimately have "count_list pre tab = 0" and "count_list post tab = 0"
    by simp_all
  then have np: "tab \<notin> set pre" and nq: "tab \<notin> set post"
    by (simp_all add: count_list_0_iff)
  have "split_on tab (strip line @ post) = [g0, g1, g2, g3, g4 @ post]"
    using split_on_append [OF nq, of "strip line"] parts by simp
  then have "split_on tab (pre @ strip line @ post) = [pre @ g0, g1, g2, g3, g4 @ post]"
    using split_on_prepend [OF np, of "strip line @ post"] by simp
  with raw line have eq: "[f0, f1, f2, f3, f4] = [pre @ g0, g1, g2, g3, g4 @ post]"
    by simp
  have "\<not> isspace (hd g0)" if "g0 \<noteq> []"
  proof -
    from that parts have "hd (split_on tab (strip line)) \<noteq> []" by simp
    from hd_split_on [OF this] parts have "hd g0 = hd (strip line)" and "strip line \<noteq> []"
      by simp_all
    with h show ?thesis by simp
  qed
  with eq sp show ?thesis by blast
qed

lemma load_vocab_line_Inr:
  assumes "load_vocab_line py_int line vocab = Inr vocab'"
  obtains g0 g1 g2 g3 g4 j s where "split_on tab (strip line) = [g0, g1, g2, g3, g4]"
    and "g0 \<noteq> []" and "g1 \<noteq> []" and "py_int g2 = Some j" and "py_int g3 = Some s" and "s \<noteq> 0"
    and "vocab' = dict_set g0 (dict_set g1 (real_of_int j / real_of_int s) (dict_get [] vocab g0)) vocab"
  using assms unfolding load_vocab_line_def
  by (auto split: list.splits if_splits option.splits)

lemma for_each_raises:
  assumes "x \<in> set xs" and "\<And>s. \<exists>e. body x s = Inl e"
  shows "\<exists>e. for_each body xs s = Inl e"
  using assms(1)
proof (induction xs arbitrary: s)
  case Nil
  then show ?case by simp
next
  case (Cons y xs)
  show ?case
  proof (cases "body y s")
    case (Inl e)
    then show ?thesis by simp
  next
    case (Inr s')
    with Cons.prems assms(2) [of s] have "x \<in> set xs" by auto
    from Cons.IH [OF this, of s'] Inr show ?thesis by simp
  qed
qed

lemma load_vocab_line_ZeroDivisionError:
  assumes "load_vocab_line py_int line vocab = Inl ZeroDivisionError"
  obtains g0 g1 g2 g3 g4 where "split_on tab (strip line) = [g0, g1, g2, g3, g4]"
    and "g0 \<noteq> []" and "g1 \<noteq> []"
  using assms unfolding load_vocab_line_def
  by (auto split: list.splits if_splits option.splits)

lemma dropWhile_spaces:
  assumes "list_all isspace pre" and "g \<noteq> []" and "\<not> isspace (hd g)"
  shows "dropWhile isspace (pre @ g) = g"
proof -
  from assms(1) have "dropWhile isspace (pre @ g) = dropWhile isspace g"
    by (simp add: list_all_iff dropWhile_append2)
  also from assms(2,3) have "\<dots> = g" by (cases g) simp_all
  finally show ?thesis .
qed

lemma loaded_row:
  assumes raw: "split_on tab line = [src, dst, joint_freq, src_freq, dst_freq]"
    and ok: "load_vocab_line py_int line vocab = Inr vocab'"
  shows "\<exists>j s. py_int joint_freq = Some j \<and> py_int src_freq = Some s \<and> s \<noteq> 0 \<and>
     src \<noteq> [] \<and> dst \<noteq> [] \<and>
     map_of (dict_get [] vocab' (dropWhile isspace src)) dst = Some (real_of_int j / real_of_int s)"
proof -
  from ok obtain g0 g1 g2 g3 g4 j s where parts: "split_on tab (strip line) = [g0, g1, g2, g3, g4]"
    and ne: "g0 \<noteq> []" "g1 \<noteq> []" and j: "py_int g2 = Some j" and s: "py_int g3 = Some s" "s \<noteq> 0"
    and v: "vocab' = dict_set g0 (dict_set g1 (real_of_int j / real_of_int s) (dict_get [] vocab g0)) vocab"
    by (rule load_vocab_line_Inr)
  from row_fields [OF raw parts] obtain pre post where
    f: "src = pre @ g0" "dst = g1" "joint_freq = g2" "src_freq = g3"
    and sp: "list_all isspace pre" and h: "g0 \<noteq> [] \<Longrightarrow> \<not> isspace (hd g0)"
    by blast
  have key: "dropWhile isspace src = g0"
    unfolding f(1) by (rule dropWhile_spaces [OF sp ne(1) h [OF ne(1)]])
  have "map_of (dict_get [] vocab' g0) g1 = Some (real_of_int j / real_of_int s)"
    by (simp add: v dict_get_dict_set map_of_dict_set)
  with f ne j s key show ?thesis by simp
qed

lemma bad_row:
  assumes raw: "split_on tab line = [src, dst, joint_freq, src_freq, dst_freq]"
    and bad: "src = [] \<or> dst = [] \<or> py_int src_freq = Some 0"
  shows "\<exists>e. load_vocab_line py_int line vocab = Inl e"
proof (cases "load_vocab_line py_int line vocab")
  case (Inl e)
  then show ?thesis by simp
next
  case (Inr vocab')
  from loaded_row [OF raw Inr] bad show ?thesis by auto
qed

text \<open>
  C9. For a row of five tab-separated fields: if the source or the target is empty,
  loading the row raises \<^verbatim>\<open>AssertionError\<close> or, where stripping the line leaves fewer
  than five fields, \<^verbatim>\<open>ValueError\<close>; if \<^verbatim>\<open>int(src_freq)\<close> is 0 it raises; a table file
  with such a row does not load. When the row loads, both frequencies are integers, the
  source frequency is not 0 and the probability stored for the source (without leading
  whitespace) and the target is the joint frequency divided by the source frequency.
\<close>

theorem replacement_row_validation:
  assumes "split_on tab line = [src, dst, joint_freq, src_freq, dst_freq]"
  shows "(src = [] \<or> dst = [] \<longrightarrow>
            load_vocab_line py_int line vocab = Inl AssertionError \<or>
            load_vocab_line py_int line vocab = Inl ValueError) \<and>
         (py_int src_freq = Some 0 \<longrightarrow> (\<exists>e. load_vocab_line py_int line vocab = Inl e)) \<and>
         (line \<in> set rows \<longrightarrow> src = [] \<or> dst = [] \<or> py_int src_freq = Some 0 \<longrightarrow>
            (\<exists>e. load_vocab py_int rows = Inl e)) \<and>
         (load_vocab_line py_int line vocab = Inr vocab' \<longrightarrow>
            (\<exists>j s. py_int joint_freq = Some j \<and> py_int src_freq = Some s \<and> s \<noteq> 0 \<and>
               map_of (dict_get [] vocab' (dropWhile isspace src)) dst
                 = Some (real_of_int j / real_of_int s)))"
proof (intro conjI impI)
  assume empty: "src = [] \<or> dst = []"
  then obtain e where e: "load_vocab_line py_int line vocab = Inl e"
    using bad_row [where py_int = py_int and vocab = vocab, OF assms] by blast
  have "e \<noteq> ZeroDivisionError"
  proof
    assume "e = ZeroDivisionError"
    with e obtain g0 g1 g2 g3 g4 where parts: "split_on tab (strip line) = [g0, g1, g2, g3, g4]"
      and ne: "g0 \<noteq> []" "g1 \<noteq> []"
      by (auto elim: load_vocab_line_ZeroDivisionError)
    from row_fields [OF assms parts] obtain pre post where "src = pre @ g0" "dst = g1"
      by blast
    with ne empty show False by simp
  qed
  with e show "load_vocab_line py_int line vocab = Inl AssertionError \<or>
      load_vocab_line py_int line vocab = Inl ValueError"
    by (cases e) simp_all
next
  assume "py_int src_freq = Some 0"
  then show "\<exists>e. load_vocab_line py_int line vocab = Inl e"
    by (intro bad_row [where py_int = py_int, OF assms]) simp
next
  assume mem: "line \<in> set rows" and bad: "src = [] \<or> dst = [] \<or> py_int src_freq = Some 0"
  show "\<exists>e. load_vocab py_int rows = Inl e"
    unfolding load_vocab_def
    by (rule for_each_raises [OF mem]) (rule bad_row [where py_int = py_int, OF assms bad])
next
  assume "load_vocab_line py_int line vocab = Inr vocab'"
  from loaded_row [OF assms this]
  show "\<exists>j s. py_int joint_freq = Some j \<and> py_int src_freq = Some s \<and> s \<noteq> 0 \<and>
      map_of (dict_get [] vocab' (dropWhile isspace src)) dst = Some (real_of_int j / real_of_int s)"
    by blast
qed


theorem replacement_row_validation_witness:
  "split_on tab (''a b'' @ [tab] @ ''x'' @ [tab] @ ''1'' @ [tab] @ ''2'' @ [tab] @ ''7'')
     = [''a b'', ''x'', ''1'', ''2'', ''7''] \<and>
   load_vocab_line int_digits (''a b'' @ [tab] @ ''x'' @ [tab] @ ''1'' @ [tab] @ ''2'' @ [tab] @ ''7'') []
     = Inr [(''a b'', [(''x'', 1 / 2)])] \<and>
   (\<exists>j s. int_digits ''1'' = Some j \<and> int_digits ''2'' = Some s \<and> s \<noteq> 0 \<and>
      map_of (dict_get [] [(''a b'', [(''x'', 1 / 2)])] (dropWhile isspace ''a b'')) ''x''
        = Some (real_of_int j / real_of_int s)) \<and>
   split_on tab (''a'' @ [tab] @ [tab] @ ''1'' @ [tab] @ ''2'' @ [tab] @ ''7'')
     = [''a'', [], ''1'', ''2'', ''7''] \<and>
   load_vocab_line int_digits (''a'' @ [tab] @ [tab] @ ''1'' @ [tab] @ ''2'' @ [tab] @ ''7'') []
     = Inl AssertionError \<and>
   split_on tab ([tab] @ ''x'' @ [tab] @ ''1'' @ [tab] @ ''2'' @ [tab] @ ''7'')
     = [[], ''x'', ''1'', ''2'', ''7''] \<and>
   load_vocab_line int_digits ([tab] @ ''x'' @ [tab] @ ''1'' @ [tab] @ ''2'' @ [tab] @ ''7'') []
     = Inl ValueError \<and>
   split_on tab (''a'' @ [tab] @ ''x'' @ [tab] @ ''1'' @ [tab] @ ''0'' @ [tab] @ ''7'')
     = [''a'', ''x'', ''1'', ''0'', ''7''] \<and>
   int_digits ''0'' = Some 0 \<and>
   load_vocab_line int_digits (''a'' @ [tab] @ ''x'' @ [tab] @ ''1'' @ [tab] @ ''0'' @ [tab] @ ''7'') []
     = Inl ZeroDivisionError"
proof -
  let ?ok = "''a b'' @ [tab] @ ''x'' @ [tab] @ ''1'' @ [tab] @ ''2'' @ [tab] @ ''7''"
  have raw: "split_on tab ?ok = [''a b'', ''x'', ''1'', ''2'', ''7'']"
    by (simp add: tab_def Let_def)
  have ld: "load_vocab_line int_digits ?ok [] = Inr [(''a b'', [(''x'', 1 / 2)])]"
    by (simp add: load_vocab_line_def int_digits_def digit_val_def dict_get_def string_eval)
  from replacement_row_validation [OF raw, of int_digits "[]" "[]" "[(''a b'', [(''x'', 1 / 2)])]"] ld
  have st: "\<exists>j s. int_digits ''1'' = Some j \<and> int_digits ''2'' = Some s \<and> s \<noteq> 0 \<and>
      map_of (dict_get [] [(''a b'', [(''x'', 1 / 2)])] (dropWhile isspace ''a b'')) ''x''
        = Some (real_of_int j / real_of_int s)"
    by blast
  have rest: "split_on tab (''a'' @ [tab] @ [tab] @ ''1'' @ [tab] @ ''2'' @ [tab] @ ''7'')
     = [''a'', [], ''1'', ''2'', ''7'']"
   "load_vocab_line int_digits (''a'' @ [tab] @ [tab] @ ''1'' @ [tab] @ ''2'' @ [tab] @ ''7'') []
     = Inl AssertionError"
   "split_on tab ([tab] @ ''x'' @ [tab] @ ''1'' @ [tab] @ ''2'' @ [tab] @ ''7'')
     = [[], ''x'', ''1'', ''2'', ''7'']"
   "load_vocab_line int_digits ([tab] @ ''x'' @ [tab] @ ''1'' @ [tab] @ ''2'' @ [tab] @ ''7'') []
     = Inl ValueError"
   "split_on tab (''a'' @ [tab] @ ''x'' @ [tab] @ ''1'' @ [tab] @ ''0'' @ [tab] @ ''7'')
     = [''a'', ''x'', ''1'', ''0'', ''7'']"
   "int_digits ''0'' = Some 0"
   "load_vocab_line int_digits (''a'' @ [tab] @ ''x'' @ [tab] @ ''1'' @ [tab] @ ''0'' @ [tab] @ ''7'') []
     = Inl ZeroDivisionError"
    by (simp_all add: load_vocab_line_def int_digits_def digit_val_def dict_get_def string_eval Let_def)
  from raw ld st rest show ?thesis by blast
qed

section \<open>Token-count mismatch in the three modes\<close>
















end
